theory Spec2Isabelle
  imports Main
begin

section \<open>JavaScript strings and numbers, as far as the seed script uses them\<close>

text \<open>
  Strings are lists of characters, a character standing for one code unit below 256. The
  strings that the script compares, searches and slices (dates, URLs, type labels) are
  ASCII text. Years, identifiers, indices and HTTP status codes are non-negative
  integers and are modelled as \<^typ>\<open>nat\<close>.
\<close>

definition digit_char :: "nat \<Rightarrow> char" where
  "digit_char d = char_of (48 + d)"

text \<open>Template interpolation of a non-negative integer: its decimal digits.\<close>

function show_nat :: "nat \<Rightarrow> string" where
  "show_nat n = (if n < 10 then [digit_char n] else show_nat (n div 10) @ [digit_char (n mod 10)])"
  by pat_completeness auto
termination
  by (relation "measure (\<lambda>n. n)") auto

declare show_nat.simps [simp del]

text \<open>
  The operator \<open><\<close> on two JavaScript strings: lexicographic on code units, a proper
  prefix being smaller.
\<close>

fun str_lt :: "string \<Rightarrow> string \<Rightarrow> bool" where
  "str_lt [] [] = False"
| "str_lt [] (y # ys) = True"
| "str_lt (x # xs) [] = False"
| "str_lt (x # xs) (y # ys) =
     (if (of_char x :: nat) < of_char y then True
      else if (of_char y :: nat) < of_char x then False
      else str_lt xs ys)"

definition str_gt :: "string \<Rightarrow> string \<Rightarrow> bool" where
  "str_gt a b = str_lt b a"

text \<open>
  \<open>String.prototype.toLowerCase\<close> on the code units below 256: the letters \<open>A\<close> to \<open>Z\<close>
  and the capital letters of Latin-1 (192 to 222, but for the multiplication sign 215) move
  up by 32; other characters are kept.
\<close>

definition lower_char :: "char \<Rightarrow> char" where
  "lower_char c =
     (let k = (of_char c :: nat) in
      if (65 \<le> k \<and> k \<le> 90) \<or> (192 \<le> k \<and> k \<le> 222 \<and> k \<noteq> 215) then char_of (k + 32) else c)"

definition toLowerCase :: "string \<Rightarrow> string" where
  "toLowerCase s = map lower_char s"

fun starts_with :: "string \<Rightarrow> string \<Rightarrow> bool" where
  "starts_with t [] = True"
| "starts_with [] (p # ps) = False"
| "starts_with (c # cs) (p # ps) = (c = p \<and> starts_with cs ps)"

text \<open>\<open>t.includes(p)\<close>: the pattern occurs at some position of the text.\<close>

fun str_includes :: "string \<Rightarrow> string \<Rightarrow> bool" where
  "str_includes [] p = starts_with [] p"
| "str_includes (c # cs) p = (starts_with (c # cs) p \<or> str_includes cs p)"

text \<open>
  \<open>String.prototype.trim\<close> strips white space and line terminators; below 256 these are
  the code units 9 to 13, the space 32 and the no-break space 160.
\<close>

definition is_space :: "char \<Rightarrow> bool" where
  "is_space c = ((of_char c :: nat) \<in> {9, 10, 11, 12, 13, 32, 160})"

definition trim :: "string \<Rightarrow> string" where
  "trim s = rev (dropWhile is_space (rev (dropWhile is_space s)))"

text \<open>
  \<open>a || b\<close> on optional strings: the left operand when it is a non-empty string
  (\<open>undefined\<close>, \<open>null\<close> and \<open>''\<close> are falsy), the right operand otherwise.
\<close>

definition js_or :: "string option \<Rightarrow> string option \<Rightarrow> string option" where
  "js_or a b = (case a of Some (c # cs) \<Rightarrow> Some (c # cs) | _ \<Rightarrow> b)"

text \<open>\<open>a || ''\<close>.\<close>

definition or_empty :: "string option \<Rightarrow> string" where
  "or_empty a = (case a of Some s \<Rightarrow> s | None \<Rightarrow> [])"

text \<open>\<open>a || undefined\<close>.\<close>

definition or_undefined :: "string option \<Rightarrow> string option" where
  "or_undefined a = js_or a None"

section \<open>Section tags\<close>

datatype section_tag = majority | concurrence | dissent | per_curiam | syllabus | other

definition normalizeSection :: "string option \<Rightarrow> section_tag" where
  "normalizeSection type' =
     (let t = toLowerCase (or_empty type') in
      if str_includes t ''majority'' then majority
      else if str_includes t ''concurr'' then concurrence
      else if str_includes t ''dissent'' then dissent
      else if str_includes t ''per curiam'' \<or> str_includes t ''per_curiam'' then per_curiam
      else if str_includes t ''syllabus'' then syllabus
      else other)"


text \<open>
  \<open>encodeURIComponent\<close> on ASCII text: letters, digits and \<open>- _ . ! ~ * ' ( )\<close> are
  kept, every other character becomes \<open>%XX\<close>.
\<close>

definition hex_digit :: "nat \<Rightarrow> char" where
  "hex_digit d = (if d < 10 then char_of (48 + d) else char_of (55 + d))"

definition uri_unreserved :: "char \<Rightarrow> bool" where
  "uri_unreserved c =
     (let k = (of_char c :: nat) in
      (65 \<le> k \<and> k \<le> 90) \<or> (97 \<le> k \<and> k \<le> 122) \<or> (48 \<le> k \<and> k \<le> 57) \<or>
      c \<in> set ''-_.!~*'()'')"

definition encodeURIComponent :: "string \<Rightarrow> string" where
  "encodeURIComponent s =
     concat (map (\<lambda>c. if uri_unreserved c then [c]
                        else [CHR ''%'', hex_digit (of_char c div 16), hex_digit (of_char c mod 16)]) s)"

text \<open>\<open>xs.join(',')\<close>.\<close>

fun join_comma :: "string list \<Rightarrow> string" where
  "join_comma [] = []"
| "join_comma [x] = x"
| "join_comma (x # y # ys) = x @ '','' @ join_comma (y # ys)"

section \<open>Configuration, upstream payloads and stored documents\<close>

text \<open>
  The constants the script derives from its environment. Field names carry a short
  prefix for the type they belong to (\<open>cl_\<close> cluster, \<open>op_\<close> opinion, \<open>pg_\<close> page,
  \<open>cd_\<close> CaseDoc, \<open>oc_\<close> OpinionChunk, \<open>cp_\<close> SeedCheckpoint), since several of the
  script's types share field names.
\<close>

record config =
  START_YEAR :: nat
  END_YEAR :: nat
  JOB_ID :: string
  RESUME :: bool
  COURTLISTENER_BASE :: string

text \<open>The fields of an upstream cluster and of an upstream opinion that the script reads.\<close>

record cluster =
  cl_id :: nat
  cl_case_name :: "string option"
  cl_case_name_full :: "string option"
  cl_date_filed :: "string option"
  cl_docket :: "string option"
  cl_docket_number :: "string option"
  cl_citations :: "string option list option"

record opinion =
  op_id :: nat
  op_type :: "string option"
  op_opinion_type :: "string option"
  op_author_str :: "string option"
  op_author :: "string option"
  op_plain_text :: "string option"
  op_html_with_citations :: "string option"
  op_html :: "string option"

text \<open>A page of the paginated API: \<open>{results, next}\<close>.\<close>

record 'a page =
  pg_results :: "'a list option"
  pg_next :: "string option"

text \<open>\<open>json.results || []\<close>.\<close>

definition page_items :: "'a page \<Rightarrow> 'a list" where
  "page_items json = (case pg_results json of Some rs \<Rightarrow> rs | None \<Rightarrow> [])"

text \<open>
  A stored case document. Every field but the key is optional in storage: an
  \<open>updateOne\<close> with \<open>upsert\<close> creates a document holding only the key and the fields of
  its \<open>$set\<close>.
\<close>

record CaseDoc =
  cd_case_id :: string
  cd_case_name :: "string option"
  cd_docket :: "string option"
  cd_decision_date :: "string option"
  cd_provider :: "string option"
  cd_court :: "string option"
  cd_citations :: "string list option"
  cd_source_urls :: "string list option"
  cd_indexed :: "bool option"
  cd_opinions_count :: "nat option"

record 'v OpinionChunk =
  oc_case_id :: string
  oc_section :: section_tag
  oc_author :: "string option"
  oc_opinion_id :: string
  oc_chunk_index :: nat
  oc_text :: string
  oc_vector :: "'v option"
  oc_decision_date :: "string option"
  oc_content_hash :: string
  oc_source_url :: string

record SeedCheckpoint =
  cp_job_id :: string
  cp_start_year :: nat
  cp_end_year :: nat
  cp_next_url :: "string option"
  cp_updated_at :: string

section \<open>The world outside the script, and the state it acts on\<close>

text \<open>What one HTTP request can come to.\<close>

datatype 'a http_outcome =
    HttpOk 'a \<comment> \<open>\<open>res.ok\<close>, and \<open>res.json()\<close> resolves to the payload\<close>
  | HttpOkInvalid string \<comment> \<open>\<open>res.ok\<close>, and \<open>res.json()\<close> rejects\<close>
  | HttpStatus nat string string \<comment> \<open>not \<open>res.ok\<close>: status, status text, body\<close>
  | NetworkError string \<comment> \<open>\<open>fetch\<close> rejects: network failure, or abort by the 45 s timer\<close>

text \<open>
  Every call of the outside world and of storage is recorded in a log, in order. The
  length of the log serves as the clock: what the network, the random number generator,
  the embedding service and the wall clock answer may depend on the moment of the call.
\<close>

datatype event =
    HttpRequest string
  | Sleep nat
  | EmbeddingsCreate nat
  | CasesFindOne string
  | CasesUpdateOne string
  | OpinionsFindOne string string string
  | OpinionsInsertMany nat
  | ControlFindOne string
  | ControlUpdateOne string string
  | ConsoleError string

text \<open>
  The parts of the run that are not code of the script: the two upstream endpoints, the
  jitter drawn by \<open>Math.floor(Math.random() * 500)\<close>, the embedding service, the clock,
  the text splitter and the SHA-1 digest of the libraries, and the chain of regular
  expression replacements that turns markup into text.
\<close>

record 'v env =
  http_clusters :: "nat \<Rightarrow> string \<Rightarrow> cluster page http_outcome"
  http_opinions :: "nat \<Rightarrow> string \<Rightarrow> opinion page http_outcome"
  random_jitter :: "nat \<Rightarrow> nat"
  embeddings_create :: "nat \<Rightarrow> string list \<Rightarrow> string + 'v list"
  now_iso :: "nat \<Rightarrow> string"
  splitText :: "string \<Rightarrow> string list"
  sha1 :: "string \<Rightarrow> string"
  strip_markup :: "string \<Rightarrow> string"

text \<open>
  The three collections and the log. \<open>cases\<close> and \<open>control\<close> are only ever written
  by an upsert on their key, so each is a map from the key; \<open>opinions\<close> is written by
  \<open>insertMany\<close>, so it is the list of the documents inserted.
\<close>

record 'v store =
  cases :: "string \<rightharpoonup> CaseDoc"
  opinions :: "'v OpinionChunk list"
  control :: "string \<rightharpoonup> SeedCheckpoint"
  log :: "event list"

definition emit :: "event \<Rightarrow> 'v store \<Rightarrow> 'v store" where
  "emit e st = st\<lparr>log := log st @ [e]\<rparr>"

definition sleep :: "nat \<Rightarrow> 'v store \<Rightarrow> 'v store" where
  "sleep ms st = emit (Sleep ms) st"

text \<open>How a call of the script ends: it returns, it throws, or it never comes back.\<close>

datatype caught = NetworkMessage string | StatusMessage string nat string string

datatype fetch_error = NetworkErrorAfterRetries string caught | InvalidJson string

datatype error = FetchError fetch_error | EmbeddingError string

datatype 'a outcome = Returned 'a | Thrown error | Diverges

section \<open>fetchJsonWithRetry\<close>

definition retriableStatuses :: "nat list" where
  "retriableStatuses = [403, 408, 425, 429, 500, 502, 503, 504]"

definition backoff_base :: "nat \<Rightarrow> nat" where
  "backoff_base attempt = min 30000 (300 * 2 ^ attempt)"

definition backoff_wait :: "nat \<Rightarrow> nat \<Rightarrow> nat" where
  "backoff_wait attempt jitter = backoff_base attempt + jitter"

text \<open>
  One call makes one request. A retriable status below the ceiling sleeps and recurses.
  Any other status throws inside the \<open>try\<close> block, so the \<open>catch\<close> block of the same call
  receives it, exactly as it receives a rejected \<open>fetch\<close>: it sleeps and recurses while
  \<open>attempt \<le> 8\<close> and throws the final error otherwise. The recursive calls are returned
  without \<open>await\<close>, so their errors pass through; so does a rejected \<open>res.json()\<close>.
\<close>

function fetchJsonWithRetry ::
  "(nat \<Rightarrow> string \<Rightarrow> 'a http_outcome) \<Rightarrow> (nat \<Rightarrow> nat) \<Rightarrow> string \<Rightarrow> string \<Rightarrow> nat \<Rightarrow> 'v store
     \<Rightarrow> (fetch_error + 'a) \<times> 'v store" where
  "fetchJsonWithRetry http rnd url purpose attempt st =
     (let st1 = emit (HttpRequest url) st;
          wait = backoff_wait attempt (rnd (length (log st1)))
      in case http (length (log st)) url of
           HttpOk payload \<Rightarrow> (Inr payload, st1)
         | HttpOkInvalid msg \<Rightarrow> (Inl (InvalidJson msg), st1)
         | HttpStatus status statusText body \<Rightarrow>
             if status \<in> set retriableStatuses \<and> attempt \<le> 8
             then fetchJsonWithRetry http rnd url purpose (attempt + 1) (sleep wait st1)
             else if attempt \<le> 8
             then fetchJsonWithRetry http rnd url purpose (attempt + 1) (sleep wait st1)
             else (Inl (NetworkErrorAfterRetries purpose
                          (StatusMessage purpose status statusText (take 300 body))), st1)
         | NetworkError msg \<Rightarrow>
             if attempt \<le> 8
             then fetchJsonWithRetry http rnd url purpose (attempt + 1) (sleep wait st1)
             else (Inl (NetworkErrorAfterRetries purpose (NetworkMessage msg)), st1))"
  by pat_completeness auto
termination
  by (relation "measure (\<lambda>(http, rnd, url, purpose, attempt, st). 9 - attempt)") auto

declare fetchJsonWithRetry.simps [simp del]

section \<open>Checkpoints\<close>

definition readCheckpoint :: "config \<Rightarrow> 'v store \<Rightarrow> SeedCheckpoint option \<times> 'v store" where
  "readCheckpoint cfg st = (control st (JOB_ID cfg), emit (ControlFindOne (JOB_ID cfg)) st)"

text \<open>The upsert sets all five fields, so the stored checkpoint is the new one.\<close>

definition writeCheckpoint :: "config \<Rightarrow> 'v env \<Rightarrow> string option \<Rightarrow> 'v store \<Rightarrow> 'v store" where
  "writeCheckpoint cfg w nextUrl st =
     (let cp = \<lparr> cp_job_id = JOB_ID cfg,
                 cp_start_year = START_YEAR cfg,
                 cp_end_year = END_YEAR cfg,
                 cp_next_url = Some (or_empty nextUrl),
                 cp_updated_at = now_iso w (length (log st)) \<rparr>
      in emit (ControlUpdateOne (JOB_ID cfg) (or_empty nextUrl))
           (st\<lparr>control := (control st)(JOB_ID cfg \<mapsto> cp)\<rparr>))"

section \<open>Upstream helpers\<close>

definition buildClustersFirstPageUrl :: "config \<Rightarrow> nat \<Rightarrow> nat \<Rightarrow> string" where
  "buildClustersFirstPageUrl cfg startYear endYear =
     (let min = show_nat startYear @ ''-03-19'';
          max = show_nat endYear @ ''-12-01'';
          fields = join_comma [''id'', ''case_name'', ''case_name_full'', ''date_filed'',
                               ''docket'', ''citations'', ''sub_opinions'']
      in COURTLISTENER_BASE cfg @ ''/api/rest/v4/clusters/'' @
         ''?docket__court=scotus'' @
         ''&date_filed__gte='' @ encodeURIComponent min @
         ''&date_filed__lte='' @ encodeURIComponent max @
         ''&page_size=100'' @
         ''&order_by=date_filed'' @
         ''&fields='' @ encodeURIComponent fields)"

text \<open>
  The \<open>while (url)\<close> loop of \<open>fetchOpinionsForCluster\<close>. Upstream decides how many pages
  there are, so the loop runs on fuel: with none left and a page still to fetch, the
  call has not come back.
\<close>

fun fetchOpinionsLoop ::
  "nat \<Rightarrow> 'v env \<Rightarrow> nat \<Rightarrow> string \<Rightarrow> opinion list \<Rightarrow> 'v store \<Rightarrow> opinion list outcome \<times> 'v store" where
  "fetchOpinionsLoop fuel w clusterId url results st =
     (if url = [] then (Returned results, st)
      else case fuel of
        0 \<Rightarrow> (Diverges, st)
      | Suc k \<Rightarrow>
          (case fetchJsonWithRetry (http_opinions w) (random_jitter w) url
                  (''fetch opinions for cluster '' @ show_nat clusterId) 1 st of
             (Inl e, st1) \<Rightarrow> (Thrown (FetchError e), st1)
           | (Inr json, st1) \<Rightarrow>
               (let results' = results @ page_items json;
                    url' = or_empty (pg_next json);
                    st2 = (if url' \<noteq> [] then sleep 200 st1 else st1)
                in fetchOpinionsLoop k w clusterId url' results' st2)))"

declare fetchOpinionsLoop.simps [simp del]

text \<open>The URL of the first page of the opinions of a cluster.\<close>

definition opinionsUrl :: "config \<Rightarrow> nat \<Rightarrow> string" where
  "opinionsUrl cfg clusterId =
     (let fields = join_comma [''id'', ''type'', ''author'', ''author_str'', ''plain_text'',
                               ''html_with_citations'', ''html'']
      in COURTLISTENER_BASE cfg @ ''/api/rest/v4/opinions/'' @
         ''?cluster='' @ show_nat clusterId @ ''&page_size=100&order_by=id&fields='' @
         encodeURIComponent fields)"

definition fetchOpinionsForCluster ::
  "nat \<Rightarrow> config \<Rightarrow> 'v env \<Rightarrow> nat \<Rightarrow> 'v store \<Rightarrow> opinion list outcome \<times> 'v store" where
  "fetchOpinionsForCluster fuel cfg w clusterId st =
     fetchOpinionsLoop fuel w clusterId (opinionsUrl cfg clusterId) [] st"

text \<open>
  The plain text when there is some, else the markup with its tags stripped; the
  stripping itself is the \<open>strip_markup\<close> of the environment.
\<close>

definition extractOpinionText :: "'v env \<Rightarrow> opinion \<Rightarrow> string" where
  "extractOpinionText w op =
     (let pt = trim (or_empty (op_plain_text op)) in
      if pt \<noteq> [] then pt
      else let html = trim (or_empty (js_or (op_html_with_citations op) (op_html op))) in
        if html = [] then [] else strip_markup w html)"

definition embedBatch :: "'v env \<Rightarrow> string list \<Rightarrow> 'v store \<Rightarrow> 'v list outcome \<times> 'v store" where
  "embedBatch w texts st =
     (let inputs = filter (\<lambda>t. t \<noteq> []) (map trim texts) in
      if inputs = [] then (Returned [], st)
      else case embeddings_create w (length (log st)) inputs of
             Inl msg \<Rightarrow> (Thrown (EmbeddingError msg), emit (EmbeddingsCreate (length inputs)) st)
           | Inr vectors \<Rightarrow> (Returned vectors, emit (EmbeddingsCreate (length inputs)) st))"

section \<open>Storage helpers\<close>

text \<open>
  \<open>$set\<close> writes the fields that are defined in the update and keeps the others as they
  are stored.
\<close>

definition set_field :: "'a option \<Rightarrow> 'a option \<Rightarrow> 'a option" where
  "set_field new old = (case new of Some v \<Rightarrow> Some v | None \<Rightarrow> old)"

definition apply_set :: "CaseDoc \<Rightarrow> CaseDoc \<Rightarrow> CaseDoc" where
  "apply_set doc old =
     \<lparr> cd_case_id = cd_case_id doc,
       cd_case_name = set_field (cd_case_name doc) (cd_case_name old),
       cd_docket = set_field (cd_docket doc) (cd_docket old),
       cd_decision_date = set_field (cd_decision_date doc) (cd_decision_date old),
       cd_provider = set_field (cd_provider doc) (cd_provider old),
       cd_court = set_field (cd_court doc) (cd_court old),
       cd_citations = set_field (cd_citations doc) (cd_citations old),
       cd_source_urls = set_field (cd_source_urls doc) (cd_source_urls old),
       cd_indexed = set_field (cd_indexed doc) (cd_indexed old),
       cd_opinions_count = set_field (cd_opinions_count doc) (cd_opinions_count old) \<rparr>"

text \<open>\<open>updateOne({case_id}, {$set: doc}, {upsert: true})\<close> on the cases collection.\<close>

definition upsertCase :: "CaseDoc \<Rightarrow> 'v store \<Rightarrow> 'v store" where
  "upsertCase doc st =
     emit (CasesUpdateOne (cd_case_id doc))
       (st\<lparr>cases := (cases st)(cd_case_id doc \<mapsto>
              (case cases st (cd_case_id doc) of
                 None \<Rightarrow> doc
               | Some old \<Rightarrow> apply_set doc old))\<rparr>)"

text \<open>The update \<open>{indexed: true, opinions_count: n}\<close> of a case.\<close>

definition indexed_update :: "string \<Rightarrow> nat \<Rightarrow> CaseDoc" where
  "indexed_update case_id n =
     \<lparr> cd_case_id = case_id, cd_case_name = None, cd_docket = None, cd_decision_date = None,
       cd_provider = None, cd_court = None, cd_citations = None, cd_source_urls = None,
       cd_indexed = Some True, cd_opinions_count = Some n \<rparr>"

text \<open>The dedupe key of a chunk, and the probe \<open>findOne\<close> by that key.\<close>

definition chunk_key :: "'v OpinionChunk \<Rightarrow> string \<times> string \<times> string" where
  "chunk_key d = (oc_case_id d, oc_opinion_id d, oc_content_hash d)"

definition opinions_exists :: "'v OpinionChunk \<Rightarrow> 'v store \<Rightarrow> bool" where
  "opinions_exists d st = (chunk_key d \<in> set (map chunk_key (opinions st)))"

definition BATCH :: nat where
  "BATCH = 40"

text \<open>The inner loop: probe each candidate of the slice, collect the absent ones.\<close>

fun probe_slice :: "'v OpinionChunk list \<Rightarrow> 'v OpinionChunk list \<Rightarrow> 'v store
    \<Rightarrow> 'v OpinionChunk list \<times> 'v store" where
  "probe_slice [] toInsert st = (toInsert, st)"
| "probe_slice (d # ds) toInsert st =
     (let exists = opinions_exists d st;
          st1 = emit (OpinionsFindOne (oc_case_id d) (oc_opinion_id d) (oc_content_hash d)) st
      in probe_slice ds (if \<not> exists then toInsert @ [d] else toInsert) st1)"

definition insertMany :: "'v OpinionChunk list \<Rightarrow> 'v store \<Rightarrow> 'v store" where
  "insertMany docs st = emit (OpinionsInsertMany (length docs)) (st\<lparr>opinions := opinions st @ docs\<rparr>)"

text \<open>The outer loop, \<open>for (let i = 0; i < docs.length; i += BATCH)\<close>.\<close>

function insertLoop :: "'v OpinionChunk list \<Rightarrow> nat \<Rightarrow> nat \<Rightarrow> 'v store \<Rightarrow> nat \<times> 'v store" where
  "insertLoop docs i inserted st =
     (if i < length docs then
        (let slice = take BATCH (drop i docs);
             (toInsert, st1) = probe_slice slice [] st
         in if toInsert \<noteq> []
            then insertLoop docs (i + BATCH) (inserted + length toInsert) (insertMany toInsert st1)
            else insertLoop docs (i + BATCH) inserted st1)
      else (inserted, st))"
  by pat_completeness auto
termination
  by (relation "measure (\<lambda>(docs, i, inserted, st). length docs - i)") (auto simp: BATCH_def)

declare insertLoop.simps [simp del]

text \<open>An empty batch returns \<open>undefined\<close>, any other the number of documents inserted.\<close>

definition insertOpinionChunks :: "'v OpinionChunk list \<Rightarrow> 'v store \<Rightarrow> nat option \<times> 'v store" where
  "insertOpinionChunks docs st =
     (if docs = [] then (None, st)
      else let (inserted, st1) = insertLoop docs 0 0 st in (Some inserted, st1))"

section \<open>processCluster\<close>

definition content_hash :: "'v env \<Rightarrow> nat \<Rightarrow> nat \<Rightarrow> string \<Rightarrow> string" where
  "content_hash w opinionId i c = sha1 w (show_nat opinionId @ '':'' @ show_nat i @ '':'' @ c)"

text \<open>The documents built from the chunks of one opinion, \<open>chunks.map((c, i) => ...)\<close>.\<close>

definition build_docs ::
  "config \<Rightarrow> 'v env \<Rightarrow> string \<Rightarrow> section_tag \<Rightarrow> string option \<Rightarrow> nat \<Rightarrow> string option
     \<Rightarrow> 'v list \<Rightarrow> string list \<Rightarrow> 'v OpinionChunk list" where
  "build_docs cfg w case_id section' author opinionId decision_date vectors chunks =
     map (\<lambda>(i, c).
            \<lparr> oc_case_id = case_id,
              oc_section = section',
              oc_author = author,
              oc_opinion_id = ''clop:'' @ show_nat opinionId,
              oc_chunk_index = i,
              oc_text = c,
              oc_vector = (if i < length vectors then Some (vectors ! i) else None),
              oc_decision_date = decision_date,
              oc_content_hash = content_hash w opinionId i c,
              oc_source_url = COURTLISTENER_BASE cfg @ ''/api/rest/v4/opinions/'' @
                              show_nat opinionId @ ''/'' \<rparr>)
         (enumerate 0 chunks)"

text \<open>
  The loop over the opinions of a cluster, with the running total of inserted chunks.
  A failed embedding call ends the loop with its error.
\<close>

fun processOpinions ::
  "config \<Rightarrow> 'v env \<Rightarrow> string \<Rightarrow> string option \<Rightarrow> opinion list \<Rightarrow> nat \<Rightarrow> 'v store
     \<Rightarrow> nat outcome \<times> 'v store" where
  "processOpinions cfg w case_id decision_date [] totalInserted st = (Returned totalInserted, st)"
| "processOpinions cfg w case_id decision_date (op # ops) totalInserted st =
     (let opinionId = op_id op;
          section' = normalizeSection (js_or (op_type op) (op_opinion_type op));
          author = or_undefined (Some (trim (or_empty (js_or (op_author_str op) (op_author op)))));
          text' = extractOpinionText w op
      in if text' = [] then processOpinions cfg w case_id decision_date ops totalInserted st
         else let chunks = splitText w text' in
           if chunks = [] then processOpinions cfg w case_id decision_date ops totalInserted st
           else case embedBatch w chunks st of
                  (Returned vectors, st1) \<Rightarrow>
                    (let docs = build_docs cfg w case_id section' author opinionId decision_date
                                  vectors chunks;
                         (inserted, st2) = insertOpinionChunks docs st1;
                         totalInserted' = totalInserted + (case inserted of Some n \<Rightarrow> n | None \<Rightarrow> 0)
                     in processOpinions cfg w case_id decision_date ops totalInserted' (sleep 150 st2))
                | (Thrown e, st1) \<Rightarrow> (Thrown e, st1)
                | (Diverges, st1) \<Rightarrow> (Diverges, st1))"

definition case_id_of :: "cluster \<Rightarrow> string" where
  "case_id_of cluster = ''cl:'' @ show_nat (cl_id cluster)"

text \<open>The quick skip: the stored case, read by \<open>findOne\<close>, has \<open>indexed === true\<close>.\<close>

definition already_indexed :: "'v store \<Rightarrow> cluster \<Rightarrow> bool" where
  "already_indexed st cluster =
     (case cases st (case_id_of cluster) of Some doc \<Rightarrow> cd_indexed doc = Some True | None \<Rightarrow> False)"

text \<open>The record-level date guard: \<open>True\<close> when the record is skipped.\<close>

definition date_guard_skips :: "config \<Rightarrow> cluster \<Rightarrow> bool" where
  "date_guard_skips cfg cluster =
     (let decision_date = or_undefined (cl_date_filed cluster);
          min = show_nat (START_YEAR cfg) @ ''-01-01'';
          max = show_nat (END_YEAR cfg) @ ''-12-31''
      in case decision_date of Some d \<Rightarrow> str_lt d min \<or> str_gt d max | None \<Rightarrow> False)"

definition build_caseDoc :: "config \<Rightarrow> cluster \<Rightarrow> CaseDoc" where
  "build_caseDoc cfg cluster =
     \<lparr> cd_case_id = case_id_of cluster,
       cd_case_name = js_or (cl_case_name cluster) (or_undefined (cl_case_name_full cluster)),
       cd_docket = js_or (cl_docket cluster) (or_undefined (cl_docket_number cluster)),
       cd_decision_date = or_undefined (cl_date_filed cluster),
       cd_provider = Some ''courtlistener'',
       cd_court = Some ''US_SCOTUS'',
       cd_citations =
         (case cl_citations cluster of
            Some cs \<Rightarrow> Some (filter (\<lambda>c. c \<noteq> []) (map (\<lambda>c. trim (or_empty c)) cs))
          | None \<Rightarrow> None),
       cd_source_urls =
         Some [COURTLISTENER_BASE cfg @ ''/api/rest/v4/clusters/'' @ show_nat (cl_id cluster) @ ''/''],
       cd_indexed = Some False,
       cd_opinions_count = None \<rparr>"

definition processCluster ::
  "nat \<Rightarrow> config \<Rightarrow> 'v env \<Rightarrow> cluster \<Rightarrow> 'v store \<Rightarrow> unit outcome \<times> 'v store" where
  "processCluster fuel cfg w cluster st =
     (let clusterId = cl_id cluster;
          case_id = case_id_of cluster;
          st1 = emit (CasesFindOne case_id) st
      in if already_indexed st cluster then (Returned (), st1)
         else if date_guard_skips cfg cluster then (Returned (), st1)
         else
           let caseDoc = build_caseDoc cfg cluster;
               st2 = upsertCase caseDoc st1
           in case fetchOpinionsForCluster fuel cfg w clusterId st2 of
                (Returned opinions', st3) \<Rightarrow>
                  if opinions' = []
                  then (Returned (), upsertCase (indexed_update case_id 0) st3)
                  else (case processOpinions cfg w case_id (cd_decision_date caseDoc)
                                opinions' 0 st3 of
                          (Returned totalInserted, st4) \<Rightarrow>
                            (Returned (), upsertCase (indexed_update case_id totalInserted) st4)
                        | (Thrown e, st4) \<Rightarrow> (Thrown e, st4)
                        | (Diverges, st4) \<Rightarrow> (Diverges, st4))
              | (Thrown e, st3) \<Rightarrow> (Thrown e, st3)
              | (Diverges, st3) \<Rightarrow> (Diverges, st3))"

section \<open>loadAllCases\<close>

text \<open>The page-level date filter: \<open>True\<close> when the item is skipped by \<open>continue\<close>.\<close>

definition page_filter_skips :: "config \<Rightarrow> cluster \<Rightarrow> bool" where
  "page_filter_skips cfg cluster =
     (let df = take 10 (or_empty (cl_date_filed cluster));
          min = show_nat (START_YEAR cfg) @ ''-01-01'';
          max = show_nat (END_YEAR cfg) @ ''-5-01''
      in df \<noteq> [] \<and> (str_lt df min \<or> str_gt df max))"

definition cluster_label :: "cluster \<Rightarrow> string" where
  "cluster_label cluster =
     (case js_or (cl_case_name cluster) (or_undefined (cl_case_name_full cluster)) of
        Some l \<Rightarrow> l
      | None \<Rightarrow> ''cluster '' @ show_nat (cl_id cluster))"

text \<open>
  The loop over the items of one page. An error thrown by \<open>processCluster\<close> is caught,
  written to the console, and the loop goes on with the next item.
\<close>

fun clustersLoop ::
  "nat \<Rightarrow> config \<Rightarrow> 'v env \<Rightarrow> cluster list \<Rightarrow> nat \<Rightarrow> 'v store \<Rightarrow> nat outcome \<times> 'v store" where
  "clustersLoop fuel cfg w [] totalClusters st = (Returned totalClusters, st)"
| "clustersLoop fuel cfg w (cluster # rest) totalClusters st =
     (if page_filter_skips cfg cluster then clustersLoop fuel cfg w rest totalClusters st
      else case processCluster fuel cfg w cluster st of
             (Returned u, st1) \<Rightarrow> clustersLoop fuel cfg w rest (totalClusters + 1) st1
           | (Thrown e, st1) \<Rightarrow>
               clustersLoop fuel cfg w rest (totalClusters + 1)
                 (emit (ConsoleError (cluster_label cluster)) st1)
           | (Diverges, st1) \<Rightarrow> (Diverges, st1))"

text \<open>
  The body of the \<open>while (url)\<close> loop: fetch the page, go through its items, write the
  checkpoint, pause. It yields the next URL and the running count of clusters.
\<close>

definition pageIteration ::
  "nat \<Rightarrow> config \<Rightarrow> 'v env \<Rightarrow> string \<Rightarrow> nat \<Rightarrow> 'v store \<Rightarrow> (string \<times> nat) outcome \<times> 'v store" where
  "pageIteration fuel cfg w url totalClusters st =
     (case fetchJsonWithRetry (http_clusters w) (random_jitter w) url ''fetch clusters page'' 1 st of
        (Inl e, st1) \<Rightarrow> (Thrown (FetchError e), st1)
      | (Inr json, st1) \<Rightarrow>
          (let results = page_items json in
           case clustersLoop fuel cfg w results totalClusters st1 of
             (Returned totalClusters', st2) \<Rightarrow>
               (let nextUrl = or_empty (pg_next json);
                    st3 = writeCheckpoint cfg w (Some nextUrl) st2;
                    st4 = (if nextUrl \<noteq> [] then sleep 250 st3 else st3)
                in (Returned (nextUrl, totalClusters'), st4))
           | (Thrown e, st2) \<Rightarrow> (Thrown e, st2)
           | (Diverges, st2) \<Rightarrow> (Diverges, st2)))"

text \<open>The \<open>while (url)\<close> loop, on fuel like the loop over the pages of opinions.\<close>

fun pagesLoop ::
  "nat \<Rightarrow> nat \<Rightarrow> config \<Rightarrow> 'v env \<Rightarrow> string \<Rightarrow> nat \<Rightarrow> 'v store \<Rightarrow> nat outcome \<times> 'v store" where
  "pagesLoop pages fuel cfg w url totalClusters st =
     (if url = [] then (Returned totalClusters, st)
      else case pages of
        0 \<Rightarrow> (Diverges, st)
      | Suc k \<Rightarrow>
          (case pageIteration fuel cfg w url totalClusters st of
             (Returned (nextUrl, totalClusters'), st1) \<Rightarrow> pagesLoop k fuel cfg w nextUrl totalClusters' st1
           | (Thrown e, st1) \<Rightarrow> (Thrown e, st1)
           | (Diverges, st1) \<Rightarrow> (Diverges, st1)))"

declare pagesLoop.simps [simp del]

text \<open>Where the crawl starts: the checkpoint's \<open>next_url\<close> when resuming and it is truthy.\<close>

definition startUrl :: "config \<Rightarrow> 'v store \<Rightarrow> string \<times> 'v store" where
  "startUrl cfg st =
     (let firstUrl = buildClustersFirstPageUrl cfg (START_YEAR cfg) (END_YEAR cfg) in
      if RESUME cfg then
        (let (cp, st1) = readCheckpoint cfg st in
         case cp of
           None \<Rightarrow> (firstUrl, st1)
         | Some c \<Rightarrow>
             (case cp_next_url c of
                Some (x # xs) \<Rightarrow> (x # xs, st1)
              | _ \<Rightarrow> (firstUrl, st1)))
      else (firstUrl, st))"

definition loadAllCases :: "nat \<Rightarrow> nat \<Rightarrow> config \<Rightarrow> 'v env \<Rightarrow> 'v store \<Rightarrow> nat outcome \<times> 'v store" where
  "loadAllCases pages fuel cfg w st =
     (let (url, st1) = startUrl cfg st in pagesLoop pages fuel cfg w url 0 st1)"

section \<open>Reading the log\<close>

text \<open>
  What a stretch of the log says: the cases looked up (one look-up opens every call of
  \<open>processCluster\<close>), the checkpoints written, the durations slept, the URLs requested,
  and the storage writes of any kind.
\<close>

fun attempt_of :: "event \<Rightarrow> string list" where
  "attempt_of (CasesFindOne c) = [c]"
| "attempt_of _ = []"

definition attempts :: "event list \<Rightarrow> string list" where
  "attempts evs = concat (map attempt_of evs)"

fun checkpoint_of :: "event \<Rightarrow> (string \<times> string) list" where
  "checkpoint_of (ControlUpdateOne j u) = [(j, u)]"
| "checkpoint_of _ = []"

definition checkpoint_writes :: "event list \<Rightarrow> (string \<times> string) list" where
  "checkpoint_writes evs = concat (map checkpoint_of evs)"

fun sleep_of :: "event \<Rightarrow> nat list" where
  "sleep_of (Sleep ms) = [ms]"
| "sleep_of _ = []"

definition sleeps :: "event list \<Rightarrow> nat list" where
  "sleeps evs = concat (map sleep_of evs)"

fun request_of :: "event \<Rightarrow> string list" where
  "request_of (HttpRequest u) = [u]"
| "request_of _ = []"

definition requests :: "event list \<Rightarrow> string list" where
  "requests evs = concat (map request_of evs)"

fun is_write :: "event \<Rightarrow> bool" where
  "is_write (CasesUpdateOne c) = True"
| "is_write (OpinionsInsertMany n) = True"
| "is_write (ControlUpdateOne j u) = True"
| "is_write _ = False"

text \<open>The keys that a stretch of the log probes the opinions collection for.\<close>

fun probe_key_of :: "event \<Rightarrow> (string \<times> string \<times> string) list" where
  "probe_key_of (OpinionsFindOne a b c) = [(a, b, c)]"
| "probe_key_of _ = []"

definition probes :: "event list \<Rightarrow> (string \<times> string \<times> string) list" where
  "probes evs = concat (map probe_key_of evs)"

text \<open>The part of the log that a call added.\<close>

definition new_events :: "'v store \<Rightarrow> 'v store \<Rightarrow> event list" where
  "new_events st st' = drop (length (log st)) (log st')"

text \<open>
  The events of one run of \<open>fetchJsonWithRetry\<close> that starts at \<open>attempt\<close> and draws
  the jitters \<open>js\<close>: a request, then for every jitter a sleep and another request.
\<close>

fun run_events :: "string \<Rightarrow> nat \<Rightarrow> nat list \<Rightarrow> event list" where
  "run_events url attempt [] = [HttpRequest url]"
| "run_events url attempt (j # js) =
     HttpRequest url # Sleep (backoff_wait attempt j) # run_events url (Suc attempt) js"

section \<open>Notions used in the statements and proofs\<close>

text \<open>The probe that \<open>insertOpinionChunks\<close> makes for a candidate.\<close>

definition probe_of :: "'v OpinionChunk \<Rightarrow> event" where
  "probe_of d = OpinionsFindOne (oc_case_id d) (oc_opinion_id d) (oc_content_hash d)"

text \<open>The candidates whose key is not in storage.\<close>

definition absent :: "'v store \<Rightarrow> 'v OpinionChunk list \<Rightarrow> 'v OpinionChunk list" where
  "absent st ds = filter (\<lambda>d. \<not> opinions_exists d st) ds"

text \<open>The state after one round of the outer loop of \<open>insertOpinionChunks\<close>.\<close>

definition after_slice :: "'v store \<Rightarrow> 'v OpinionChunk list \<Rightarrow> 'v store" where
  "after_slice st slice =
     (let st1 = st\<lparr>log := log st @ map probe_of slice\<rparr>
      in if absent st slice \<noteq> [] then insertMany (absent st slice) st1 else st1)"

text \<open>The state in which \<open>processCluster\<close> goes to fetch the opinions of a record.\<close>

definition metadata_written :: "config \<Rightarrow> cluster \<Rightarrow> 'v store \<Rightarrow> 'v store" where
  "metadata_written cfg c st = upsertCase (build_caseDoc cfg c) (emit (CasesFindOne (case_id_of c)) st)"

text \<open>Reading a decimal numeral back, the inverse of \<open>show_nat\<close>.\<close>

definition parse_nat :: "string \<Rightarrow> nat" where
  "parse_nat s = foldl (\<lambda>acc c. 10 * acc + (of_char c - 48)) 0 s"

text \<open>The chunks of an opinion, and the documents built from them.\<close>

definition opinion_chunks :: "'v env \<Rightarrow> opinion \<Rightarrow> string list" where
  "opinion_chunks w op = splitText w (extractOpinionText w op)"

definition opinion_docs ::
  "config \<Rightarrow> 'v env \<Rightarrow> string \<Rightarrow> string option \<Rightarrow> opinion \<Rightarrow> 'v list \<Rightarrow> 'v OpinionChunk list" where
  "opinion_docs cfg w case_id decision_date op vectors =
     build_docs cfg w case_id (normalizeSection (js_or (op_type op) (op_opinion_type op)))
       (or_undefined (Some (trim (or_empty (js_or (op_author_str op) (op_author op))))))
       (op_id op) decision_date vectors (opinion_chunks w op)"

text \<open>The number of chunks that the opinions of a record are split into.\<close>

definition produced_count :: "'v env \<Rightarrow> opinion list \<Rightarrow> nat" where
  "produced_count w ops =
     sum_list (map (\<lambda>op. if extractOpinionText w op = [] then 0 else length (opinion_chunks w op)) ops)"

text \<open>
  The outer loop of \<open>insertOpinionChunks\<close> takes the batch in slices of \<open>BATCH\<close>
  candidates. This says that no slice carries a key twice.
\<close>

function sub_batches_distinct :: "'v OpinionChunk list \<Rightarrow> bool" where
  "sub_batches_distinct docs =
     (if docs = [] then True
      else distinct (map chunk_key (take BATCH docs)) \<and> sub_batches_distinct (drop BATCH docs))"
  by pat_completeness auto
termination
  by (relation "measure length") (auto simp: BATCH_def)

declare sub_batches_distinct.simps [simp del]

text \<open>
  The text that \<open>processCluster\<close> hashes into the \<open>content_hash\<close> of a chunk: the number
  of the opinion, the index of the chunk and its text, joined by colons.
\<close>

definition hashed_text :: "nat \<Rightarrow> nat \<times> string \<Rightarrow> string" where
  "hashed_text opinionId ic = show_nat opinionId @ '':'' @ show_nat (fst ic) @ '':'' @ snd ic"

section \<open>Concrete data for the examples\<close>

definition empty_store :: "unit store" where
  "empty_store = \<lparr> cases = Map.empty, opinions = [], control = Map.empty, log = [] \<rparr>"

definition always_404 :: "nat \<Rightarrow> string \<Rightarrow> unit http_outcome" where
  "always_404 n url = HttpStatus 404 ''Not Found'' ''missing''"

definition always_429 :: "nat \<Rightarrow> string \<Rightarrow> unit http_outcome" where
  "always_429 n url = HttpStatus 429 ''Too Many Requests'' ''slow down''"

definition no_jitter :: "nat \<Rightarrow> nat" where
  "no_jitter n = 0"

text \<open>The log of a run that meets status 429 at every request.\<close>

definition store_after_429 :: "unit store" where
  "store_after_429 =
     empty_store\<lparr>log :=
        [HttpRequest ''u'', Sleep 600, HttpRequest ''u'', Sleep 1200,
         HttpRequest ''u'', Sleep 2400, HttpRequest ''u'', Sleep 4800,
         HttpRequest ''u'', Sleep 9600, HttpRequest ''u'', Sleep 19200,
         HttpRequest ''u'', Sleep 30000, HttpRequest ''u'', Sleep 30000,
         HttpRequest ''u'']\<rparr>"

definition example_chunk :: "unit OpinionChunk" where
  "example_chunk =
     \<lparr> oc_case_id = ''cl:1'', oc_section = majority, oc_author = None, oc_opinion_id = ''clop:7'',
       oc_chunk_index = 0, oc_text = ''Held.'', oc_vector = Some (),
       oc_decision_date = Some ''2010-06-01'', oc_content_hash = ''h0'',
       oc_source_url = ''https://cl/api/rest/v4/opinions/7/'' \<rparr>"

text \<open>
  A batch of 41 candidates in which the last has the key of the first, so that the two
  fall into different slices; the same batch with its vectors dropped, as a later run
  with another embedding might build it; and the batch that \<open>processCluster\<close> builds for
  an opinion whose two chunks have the same text.
\<close>

definition numbered_chunk :: "nat \<Rightarrow> unit OpinionChunk" where
  "numbered_chunk i = example_chunk\<lparr> oc_chunk_index := i, oc_content_hash := show_nat i \<rparr>"

definition repeating_batch :: "unit OpinionChunk list" where
  "repeating_batch = map numbered_chunk [0..<40] @ [numbered_chunk 0]"

definition revectored_batch :: "unit OpinionChunk list" where
  "revectored_batch = map (\<lambda>d. d\<lparr> oc_vector := None \<rparr>) repeating_batch"

definition example_config :: config where
  "example_config = \<lparr> START_YEAR = 2000, END_YEAR = 2024, JOB_ID = ''scotus_2000_2024'',
      RESUME = True, COURTLISTENER_BASE = ''https://cl'' \<rparr>"

text \<open>The checkpoint that the last page of a finished crawl leaves behind.\<close>

definition exhausted_checkpoint :: SeedCheckpoint where
  "exhausted_checkpoint =
     \<lparr> cp_job_id = ''scotus_2000_2024'', cp_start_year = 2000, cp_end_year = 2024,
       cp_next_url = Some [], cp_updated_at = ''2025-01-01T00:00:00.000Z'' \<rparr>"

definition exhausted_store :: "unit store" where
  "exhausted_store = empty_store\<lparr>control := [''scotus_2000_2024'' \<mapsto> exhausted_checkpoint]\<rparr>"

text \<open>A record dated after the window, and one inside it with two opinions.\<close>

definition late_cluster :: cluster where
  "late_cluster = \<lparr> cl_id = 2, cl_case_name = Some ''Late v. Window'', cl_case_name_full = None,
      cl_date_filed = Some ''2025-01-15'', cl_docket = None, cl_docket_number = None,
      cl_citations = None \<rparr>"

text \<open>A record of the last day of the last year of the window.\<close>

definition december_cluster :: cluster where
  "december_cluster = \<lparr> cl_id = 3, cl_case_name = Some ''Winter v. Term'', cl_case_name_full = None,
      cl_date_filed = Some ''2024-12-31'', cl_docket = None, cl_docket_number = None,
      cl_citations = None \<rparr>"

definition example_cluster :: cluster where
  "example_cluster = \<lparr> cl_id = 1, cl_case_name = Some ''Doe v. Roe'', cl_case_name_full = None,
      cl_date_filed = Some ''2010-06-01'', cl_docket = None, cl_docket_number = None,
      cl_citations = None \<rparr>"

definition opinion_a :: opinion where
  "opinion_a = \<lparr> op_id = 7, op_type = Some ''020lead'', op_opinion_type = None,
      op_author_str = Some ''Justice A'', op_author = None, op_plain_text = Some ''Held.'',
      op_html_with_citations = None, op_html = None \<rparr>"

definition opinion_b :: opinion where
  "opinion_b = \<lparr> op_id = 8, op_type = Some ''040dissent'', op_opinion_type = None,
      op_author_str = Some ''Justice B'', op_author = None, op_plain_text = Some ''I dissent.'',
      op_html_with_citations = None, op_html = None \<rparr>"

text \<open>
  An upstream with two pages of clusters, the first at \<open>page\<close> with the cursor
  \<open>page-2\<close> and the last without a cursor, and one page of opinions, texts short
  enough to be one chunk each, and an embedding service that is out of reach at clock 7.
\<close>

definition example_env :: "unit env" where
  "example_env =
     \<lparr> http_clusters = (\<lambda>n url.
         if url = ''page''
         then HttpOk \<lparr> pg_results = Some [late_cluster, example_cluster], pg_next = Some ''page-2'' \<rparr>
         else HttpOk \<lparr> pg_results = Some [december_cluster], pg_next = None \<rparr>),
       http_opinions = (\<lambda>n url. HttpOk \<lparr> pg_results = Some [opinion_a, opinion_b], pg_next = None \<rparr>),
       random_jitter = no_jitter,
       embeddings_create = (\<lambda>n texts. if n = 7 then Inl ''rate limit'' else Inr (map (\<lambda>t. ()) texts)),
       now_iso = (\<lambda>n. ''2025-01-01T00:00:00.000Z''),
       splitText = (\<lambda>t. [t]),
       sha1 = (\<lambda>s. s),
       strip_markup = (\<lambda>s. s) \<rparr>"

definition twice_held :: "unit OpinionChunk list" where
  "twice_held =
     build_docs example_config example_env ''cl:1'' majority None 7 None [(), ()] [''Held.'', ''Held.'']"

definition chunk_a :: "unit OpinionChunk" where
  "chunk_a = \<lparr> oc_case_id = ''cl:1'', oc_section = other,
     oc_author = Some ''Justice A'', oc_opinion_id = ''clop:7'',
     oc_chunk_index = 0, oc_text = ''Held.'', oc_vector = Some (),
     oc_decision_date = Some ''2010-06-01'',
     oc_content_hash = ''7:0:Held.'',
     oc_source_url = ''https://cl/api/rest/v4/opinions/7/'' \<rparr>"

definition chunk_b :: "unit OpinionChunk" where
  "chunk_b = \<lparr> oc_case_id = ''cl:1'', oc_section = dissent,
     oc_author = Some ''Justice B'', oc_opinion_id = ''clop:8'',
     oc_chunk_index = 0, oc_text = ''I dissent.'', oc_vector = Some (),
     oc_decision_date = Some ''2010-06-01'',
     oc_content_hash = ''8:0:I dissent.'',
     oc_source_url = ''https://cl/api/rest/v4/opinions/8/'' \<rparr>"

text \<open>The same chunk of text as \<open>chunk_a\<close>, built for another case in another run.\<close>

definition chunk_a_elsewhere :: "unit OpinionChunk" where
  "chunk_a_elsewhere = chunk_a\<lparr> oc_case_id := ''cl:9'', oc_section := majority, oc_author := None,
     oc_vector := None, oc_decision_date := None,
     oc_source_url := ''https://mirror/api/rest/v4/opinions/7/'' \<rparr>"

definition example_url :: string where
  "example_url = ''https://cl/api/rest/v4/opinions/?cluster=1&page_size=100&order_by=id&fields=id%2Ctype%2Cauthor%2Cauthor_str%2Cplain_text%2Chtml_with_citations%2Chtml''"

text \<open>A store in which the record is already marked as indexed.\<close>

definition indexed_doc :: CaseDoc where
  "indexed_doc = indexed_update ''cl:1'' 3"

definition indexed_store :: "unit store" where
  "indexed_store = empty_store\<lparr>cases := [''cl:1'' \<mapsto> indexed_doc]\<rparr>"

text \<open>
  The store after a first attempt at the record, cut short by the embedding service
  when the first opinion was stored, and the store after a second, complete attempt.
\<close>

definition after_first :: "unit store" where
  "after_first =
     emit (EmbeddingsCreate 1) (sleep 150 (insertMany [chunk_a] (emit (probe_of chunk_a)
       (emit (EmbeddingsCreate 1) (emit (HttpRequest example_url)
         (metadata_written example_config example_cluster empty_store))))))"

definition after_second :: "unit store" where
  "after_second =
     upsertCase (indexed_update ''cl:1'' 1)
       (sleep 150 (insertMany [chunk_b] (emit (probe_of chunk_b) (emit (EmbeddingsCreate 1)
         (sleep 150 (emit (probe_of chunk_a) (emit (EmbeddingsCreate 1)
           (emit (HttpRequest example_url)
             (metadata_written example_config example_cluster after_first)))))))))"

text \<open>
  The store when the first page of clusters has been gone through, from an empty store,
  and the store after the checkpoint and the pause that follow.
\<close>

definition page_done :: "unit store" where
  "page_done =
     upsertCase (indexed_update ''cl:1'' 2)
       (sleep 150 (insertMany [chunk_b] (emit (probe_of chunk_b) (emit (EmbeddingsCreate 1)
         (sleep 150 (insertMany [chunk_a] (emit (probe_of chunk_a) (emit (EmbeddingsCreate 1)
           (emit (HttpRequest example_url)
             (metadata_written example_config example_cluster
               (emit (HttpRequest ''page'') empty_store)))))))))))"

definition after_page :: "unit store" where
  "after_page = sleep 250 (writeCheckpoint example_config example_env (Some ''page-2'') page_done)"

section \<open>Basic facts about the state\<close>

lemma log_emit [simp]: "log (emit e st) = log st @ [e]"
  and cases_emit [simp]: "cases (emit e st) = cases st"
  and opinions_emit [simp]: "opinions (emit e st) = opinions st"
  and control_emit [simp]: "control (emit e st) = control st"
  by (simp_all add: emit_def)

lemma log_sleep [simp]: "log (sleep ms st) = log st @ [Sleep ms]"
  and cases_sleep [simp]: "cases (sleep ms st) = cases st"
  and opinions_sleep [simp]: "opinions (sleep ms st) = opinions st"
  and control_sleep [simp]: "control (sleep ms st) = control st"
  by (simp_all add: sleep_def)

lemma log_insertMany [simp]: "log (insertMany ds st) = log st @ [OpinionsInsertMany (length ds)]"
  and cases_insertMany [simp]: "cases (insertMany ds st) = cases st"
  and opinions_insertMany [simp]: "opinions (insertMany ds st) = opinions st @ ds"
  and control_insertMany [simp]: "control (insertMany ds st) = control st"
  by (simp_all add: insertMany_def)

lemma log_upsertCase [simp]: "log (upsertCase doc st) = log st @ [CasesUpdateOne (cd_case_id doc)]"
  and opinions_upsertCase [simp]: "opinions (upsertCase doc st) = opinions st"
  and control_upsertCase [simp]: "control (upsertCase doc st) = control st"
  by (simp_all add: upsertCase_def)

lemma log_writeCheckpoint [simp]:
  "log (writeCheckpoint cfg w nextUrl st) = log st @ [ControlUpdateOne (JOB_ID cfg) (or_empty nextUrl)]"
  and cases_writeCheckpoint [simp]: "cases (writeCheckpoint cfg w nextUrl st) = cases st"
  and opinions_writeCheckpoint [simp]: "opinions (writeCheckpoint cfg w nextUrl st) = opinions st"
  by (simp_all add: writeCheckpoint_def Let_def)

lemma opinions_exists_log [simp]: "opinions_exists d (st\<lparr>log := l\<rparr>) = opinions_exists d st"
  by (simp add: opinions_exists_def)

lemma opinions_exists_emit [simp]: "opinions_exists d (emit e st) = opinions_exists d st"
  by (simp add: opinions_exists_def)

lemma new_events_append: "log st' = log st @ evs \<Longrightarrow> new_events st st' = evs"
  by (simp add: new_events_def)

lemma attempts_append [simp]: "attempts (xs @ ys) = attempts xs @ attempts ys"
  and attempts_Nil [simp]: "attempts [] = []"
  and attempts_Cons [simp]: "attempts (e # xs) = attempt_of e @ attempts xs"
  by (simp_all add: attempts_def)

lemma checkpoint_writes_append [simp]:
  "checkpoint_writes (xs @ ys) = checkpoint_writes xs @ checkpoint_writes ys"
  and checkpoint_writes_Nil [simp]: "checkpoint_writes [] = []"
  and checkpoint_writes_Cons [simp]: "checkpoint_writes (e # xs) = checkpoint_of e @ checkpoint_writes xs"
  by (simp_all add: checkpoint_writes_def)

lemma sleeps_append [simp]: "sleeps (xs @ ys) = sleeps xs @ sleeps ys"
  and sleeps_Nil [simp]: "sleeps [] = []"
  and sleeps_Cons [simp]: "sleeps (e # xs) = sleep_of e @ sleeps xs"
  by (simp_all add: sleeps_def)

lemma requests_append [simp]: "requests (xs @ ys) = requests xs @ requests ys"
  and requests_Nil [simp]: "requests [] = []"
  and requests_Cons [simp]: "requests (e # xs) = request_of e @ requests xs"
  by (simp_all add: requests_def)

section \<open>One run of fetchJsonWithRetry\<close>

text \<open>
  Whatever the network answers, a run only adds to the log, and what it adds is a chain
  of requests separated by backoff sleeps; started at attempt 1 it draws at most eight
  jitters, so it makes at most nine requests.
\<close>

lemma fetch_run:
  "fetchJsonWithRetry http rnd url purpose attempt st = (r, st') \<Longrightarrow>
     \<exists>js. st' = st\<lparr>log := log st @ run_events url attempt js\<rparr> \<and>
          set js \<subseteq> range rnd \<and> attempt + length js \<le> max attempt 9"
proof (induction http rnd url purpose attempt st arbitrary: r st' rule: fetchJsonWithRetry.induct)
  case (1 http rnd url purpose attempt st)
  let ?st1 = "emit (HttpRequest url) st"
  let ?j = "rnd (length (log ?st1))"
  let ?st2 = "sleep (backoff_wait attempt ?j) ?st1"
  note unfold = fetchJsonWithRetry.simps[of http rnd url purpose attempt st]
  have stop: "st' = ?st1 \<Longrightarrow> ?case"
    by (rule exI[of _ "[]"]) (simp add: emit_def)
  have retry: "?case" if le: "attempt \<le> 8"
     and ih: "\<exists>js. st' = ?st2\<lparr>log := log ?st2 @ run_events url (attempt + 1) js\<rparr> \<and>
          set js \<subseteq> range rnd \<and> (attempt + 1) + length js \<le> max (attempt + 1) 9"
  proof -
    from ih obtain js where js: "st' = ?st2\<lparr>log := log ?st2 @ run_events url (attempt + 1) js\<rparr>"
      "set js \<subseteq> range rnd" "(attempt + 1) + length js \<le> max (attempt + 1) 9" by blast
    let ?js = "?j # js"
    show ?thesis
      apply (rule exI[of _ ?js])
      using js le by (simp add: sleep_def emit_def)
  qed
  show ?case
  proof (cases "http (length (log st)) url")
    case (HttpOk p)
    with "1.prems" show ?thesis by (intro stop) (simp add: unfold Let_def)
  next
    case (HttpOkInvalid m)
    with "1.prems" show ?thesis by (intro stop) (simp add: unfold Let_def)
  next
    case (HttpStatus code stext body)
    show ?thesis
    proof (cases "attempt \<le> 8")
      case True
      with HttpStatus "1.prems"
      have rec: "fetchJsonWithRetry http rnd url purpose (attempt + 1) ?st2 = (r, st')"
        by (simp add: unfold Let_def split: if_splits)
      show ?thesis
      proof (cases "code \<in> set retriableStatuses")
        case T2: True
        from "1.IH"(1)[OF refl refl HttpStatus _ rec] T2 True show ?thesis
          using retry[OF True] by simp
      next
        case F2: False
        from "1.IH"(2)[OF refl refl HttpStatus _ True rec] F2 show ?thesis
          using retry[OF True] by simp
      qed
    next
      case False
      with HttpStatus "1.prems" show ?thesis
        by (intro stop) (simp add: unfold Let_def)
    qed
  next
    case (NetworkError m)
    show ?thesis
    proof (cases "attempt \<le> 8")
      case True
      with NetworkError "1.prems"
      have rec: "fetchJsonWithRetry http rnd url purpose (attempt + 1) ?st2 = (r, st')"
        by (simp add: unfold Let_def split: if_splits)
      from "1.IH"(3)[OF refl refl NetworkError True rec] show ?thesis
        using retry[OF True] by simp
    next
      case False
      with NetworkError "1.prems" show ?thesis
        by (intro stop) (simp add: unfold Let_def)
    qed
  qed
qed

lemma sleeps_run_events:
  "sleeps (run_events url a js) = map (\<lambda>(k, j). backoff_wait k j) (zip [a ..< a + length js] js)"
proof (induction js arbitrary: a)
  case Nil
  show ?case by simp
next
  case (Cons j js)
  have "[a ..< a + Suc (length js)] = a # [Suc a ..< Suc a + length js]"
    by (subst upt_rec) simp
  then show ?case by (simp add: Cons.IH del: upt_Suc)
qed

lemma attempts_run_events [simp]: "attempts (run_events url a js) = []"
  by (induction js arbitrary: a) simp_all

lemma checkpoint_writes_run_events [simp]: "checkpoint_writes (run_events url a js) = []"
  by (induction js arbitrary: a) simp_all

lemma no_write_run_events: "e \<in> set (run_events url a js) \<Longrightarrow> \<not> is_write e"
  by (induction js arbitrary: a) auto

section \<open>The loops of insertOpinionChunks\<close>

lemma probe_slice_eq:
  "probe_slice ds acc st = (acc @ absent st ds, st\<lparr>log := log st @ map probe_of ds\<rparr>)"
proof (induction ds arbitrary: acc st)
  case Nil
  show ?case by (simp add: absent_def)
next
  case (Cons d ds)
  show ?case
    by (simp add: Cons.IH Let_def emit_def absent_def probe_of_def)
qed

lemma insertLoop_stop: "\<not> i < length docs \<Longrightarrow> insertLoop docs i inserted st = (inserted, st)"
  by (simp add: insertLoop.simps[of docs i])

lemma insertLoop_step:
  "i < length docs \<Longrightarrow>
   insertLoop docs i inserted st =
     insertLoop docs (i + BATCH) (inserted + length (absent st (take BATCH (drop i docs))))
       (after_slice st (take BATCH (drop i docs)))"
  by (simp add: insertLoop.simps[of docs i] probe_slice_eq after_slice_def Let_def)

lemma after_slice_simps [simp]:
  "cases (after_slice st s) = cases st"
  "control (after_slice st s) = control st"
  "opinions (after_slice st s) = opinions st @ absent st s"
  by (simp_all add: after_slice_def Let_def)

lemma log_after_slice:
  "log (after_slice st s) = log st @ map probe_of s @
     (if absent st s \<noteq> [] then [OpinionsInsertMany (length (absent st s))] else [])"
  by (simp add: after_slice_def Let_def)

lemma drop_split: "drop i docs = take BATCH (drop i docs) @ drop (i + BATCH) docs"
  by (simp add: add.commute[of i BATCH] flip: drop_drop)

lemma fuel_dec: "i < length docs \<Longrightarrow> length docs - (i + BATCH) < length docs - i"
  by (simp add: BATCH_def)

lemma insertLoop_frame:
  "insertLoop docs i inserted st = (n, st') \<Longrightarrow> cases st' = cases st \<and> control st' = control st"
proof (induction "length docs - i" arbitrary: i inserted st rule: less_induct)
  case less
  show ?case
  proof (cases "i < length docs")
    case False
    with less.prems show ?thesis by (simp add: insertLoop_stop)
  next
    case True
    from less.prems have rec: "insertLoop docs (i + BATCH) (inserted + length (absent st (take BATCH (drop i docs))))
       (after_slice st (take BATCH (drop i docs))) = (n, st')"
      by (simp add: insertLoop_step[OF True])
    from less.hyps[OF fuel_dec[OF True] rec] show ?thesis by simp
  qed
qed

lemma insertLoop_append:
  "insertLoop docs i inserted st = (n, st') \<Longrightarrow>
     \<exists>new. opinions st' = opinions st @ new \<and> n = inserted + length new \<and>
           set new \<subseteq> set (absent st (drop i docs))"
proof (induction "length docs - i" arbitrary: i inserted st rule: less_induct)
  case less
  show ?case
  proof (cases "i < length docs")
    case False
    with less.prems show ?thesis by (simp add: insertLoop_stop)
  next
    case True
    let ?s = "take BATCH (drop i docs)"
    from less.prems have rec: "insertLoop docs (i + BATCH) (inserted + length (absent st ?s))
       (after_slice st ?s) = (n, st')"
      by (simp add: insertLoop_step[OF True])
    from less.hyps[OF fuel_dec[OF True] rec] obtain new where
      new: "opinions st' = opinions (after_slice st ?s) @ new"
         "n = inserted + length (absent st ?s) + length new"
         "set new \<subseteq> set (absent (after_slice st ?s) (drop (i + BATCH) docs))" by blast
    have sub: "set (absent (after_slice st ?s) (drop (i + BATCH) docs)) \<subseteq> set (absent st (drop (i + BATCH) docs))"
      by (auto simp: absent_def opinions_exists_def)
    have "set (absent st ?s) \<union> set (absent st (drop (i + BATCH) docs)) = set (absent st (drop i docs))"
      by (subst (3) drop_split) (auto simp: absent_def)
    with new sub show ?thesis
      by (intro exI[of _ "absent st ?s @ new"]) auto
  qed
qed

lemma insertLoop_keys:
  "insertLoop docs i inserted st = (n, st') \<Longrightarrow>
     set (map chunk_key (opinions st')) = set (map chunk_key (opinions st)) \<union> set (map chunk_key (drop i docs))"
proof (induction "length docs - i" arbitrary: i inserted st rule: less_induct)
  case less
  show ?case
  proof (cases "i < length docs")
    case False
    with less.prems show ?thesis by (simp add: insertLoop_stop)
  next
    case True
    let ?s = "take BATCH (drop i docs)"
    from less.prems have rec: "insertLoop docs (i + BATCH) (inserted + length (absent st ?s))
       (after_slice st ?s) = (n, st')"
      by (simp add: insertLoop_step[OF True])
    have k: "set (map chunk_key (opinions st)) \<union> set (map chunk_key (absent st ?s)) = set (map chunk_key (opinions st)) \<union> set (map chunk_key ?s)"
      by (auto simp: absent_def opinions_exists_def)
    have "set (map chunk_key (drop i docs)) = set (map chunk_key ?s) \<union> set (map chunk_key (drop (i + BATCH) docs))"
      by (subst drop_split) (simp only: map_append set_append)
    with less.hyps[OF fuel_dec[OF True] rec] k show ?thesis
      by (simp add: Un_assoc[symmetric])
  qed
qed

lemma insertLoop_distinct:
  "insertLoop docs i inserted st = (n, st') \<Longrightarrow> distinct (map chunk_key (drop i docs)) \<Longrightarrow>
     opinions st' = opinions st @ absent st (drop i docs)"
proof (induction "length docs - i" arbitrary: i inserted st rule: less_induct)
  case less
  show ?case
  proof (cases "i < length docs")
    case False
    with less.prems show ?thesis by (simp add: insertLoop_stop absent_def)
  next
    case True
    let ?s = "take BATCH (drop i docs)"
    let ?r = "drop (i + BATCH) docs"
    from less.prems have rec: "insertLoop docs (i + BATCH) (inserted + length (absent st ?s))
       (after_slice st ?s) = (n, st')"
      by (simp add: insertLoop_step[OF True])
    from less.prems(2) have d: "distinct (map chunk_key (?s @ ?r))"
      by (simp only: drop_split[symmetric])
    then have dr: "distinct (map chunk_key ?r)" and disj: "set (map chunk_key ?s) \<inter> set (map chunk_key ?r) = {}"
      by auto
    have same: "absent (after_slice st ?s) ?r = absent st ?r"
      unfolding absent_def
    proof (rule filter_cong[OF refl])
      fix x assume "x \<in> set ?r"
      then have "chunk_key x \<notin> set (map chunk_key ?s)" using disj by auto
      then have "chunk_key x \<notin> set (map chunk_key (absent st ?s))" by (auto simp: absent_def)
      then show "(\<not> opinions_exists x (after_slice st ?s)) = (\<not> opinions_exists x st)"
        by (auto simp: opinions_exists_def)
    qed
    have "absent st (drop i docs) = absent st ?s @ absent st ?r"
      by (subst drop_split) (simp add: absent_def)
    with less.hyps[OF fuel_dec[OF True] rec dr] same show ?thesis by simp
  qed
qed

lemma insertLoop_log:
  "insertLoop docs i inserted st = (n, st') \<Longrightarrow>
     \<exists>evs. log st' = log st @ evs \<and>
        (\<forall>e \<in> set evs. (\<exists>a b c. e = OpinionsFindOne a b c) \<or> (\<exists>k. e = OpinionsInsertMany k \<and> 0 < k \<and> k \<le> BATCH))"
proof (induction "length docs - i" arbitrary: i inserted st rule: less_induct)
  case less
  show ?case
  proof (cases "i < length docs")
    case False
    with less.prems show ?thesis by (simp add: insertLoop_stop)
  next
    case True
    let ?s = "take BATCH (drop i docs)"
    from less.prems have rec: "insertLoop docs (i + BATCH) (inserted + length (absent st ?s))
       (after_slice st ?s) = (n, st')"
      by (simp add: insertLoop_step[OF True])
    from less.hyps[OF fuel_dec[OF True] rec] obtain evs where
      evs: "log st' = log (after_slice st ?s) @ evs"
        "\<forall>e \<in> set evs. (\<exists>a b c. e = OpinionsFindOne a b c) \<or> (\<exists>k. e = OpinionsInsertMany k \<and> 0 < k \<and> k \<le> BATCH)"
      by blast
    have len: "length (absent st ?s) \<le> BATCH"
      unfolding absent_def by (rule order_trans[OF length_filter_le]) simp
    let ?here = "map probe_of ?s @ (if absent st ?s \<noteq> [] then [OpinionsInsertMany (length (absent st ?s))] else [])"
    have here: "\<forall>e \<in> set ?here. (\<exists>a b c. e = OpinionsFindOne a b c) \<or> (\<exists>k. e = OpinionsInsertMany k \<and> 0 < k \<and> k \<le> BATCH)"
      using len by (auto simp: probe_of_def)
    have all: "\<forall>e \<in> set (?here @ evs). (\<exists>a b c. e = OpinionsFindOne a b c) \<or> (\<exists>k. e = OpinionsInsertMany k \<and> 0 < k \<and> k \<le> BATCH)"
      using here evs(2) by (simp only: set_append ball_Un)
    have "log st' = log st @ (?here @ evs)"
      using evs(1) by (simp add: log_after_slice)
    with all show ?thesis by blast
  qed
qed


lemma probes_append [simp]: "probes (xs @ ys) = probes xs @ probes ys"
  and probes_Nil [simp]: "probes [] = []"
  and probes_Cons [simp]: "probes (e # xs) = probe_key_of e @ probes xs"
  by (simp_all add: probes_def)

lemma probes_map_probe_of [simp]: "probes (map probe_of ds) = map chunk_key ds"
  by (induction ds) (simp_all add: probe_of_def chunk_key_def)

lemma insertLoop_probes:
  "insertLoop docs i inserted st = (n, st') \<Longrightarrow>
     \<exists>evs. log st' = log st @ evs \<and> probes evs = map chunk_key (drop i docs)"
proof (induction "length docs - i" arbitrary: i inserted st rule: less_induct)
  case less
  show ?case
  proof (cases "i < length docs")
    case False
    with less.prems show ?thesis by (simp add: insertLoop_stop)
  next
    case True
    let ?s = "take BATCH (drop i docs)"
    from less.prems have rec: "insertLoop docs (i + BATCH) (inserted + length (absent st ?s))
       (after_slice st ?s) = (n, st')"
      by (simp add: insertLoop_step[OF True])
    from less.hyps[OF fuel_dec[OF True] rec] obtain evs where
      evs: "log st' = log (after_slice st ?s) @ evs"
        "probes evs = map chunk_key (drop (i + BATCH) docs)" by blast
    let ?here = "map probe_of ?s @ (if absent st ?s \<noteq> [] then [OpinionsInsertMany (length (absent st ?s))] else [])"
    have l: "log st' = log st @ (?here @ evs)"
      using evs(1) by (simp add: log_after_slice)
    have "probes (?here @ evs) = map chunk_key ?s @ map chunk_key (drop (i + BATCH) docs)"
      using evs(2) by simp
    also have "\<dots> = map chunk_key (drop i docs)"
      by (subst (3) drop_split) simp
    finally show ?thesis using l by blast
  qed
qed

lemma insertOpinionChunks_loop:
  "docs \<noteq> [] \<Longrightarrow> insertOpinionChunks docs st = (r, st') \<Longrightarrow>
     \<exists>n. r = Some n \<and> insertLoop docs 0 0 st = (n, st')"
  by (auto simp: insertOpinionChunks_def split: prod.splits)

lemma absent_all_present:
  "set (map chunk_key ds) \<subseteq> set (map chunk_key (opinions st)) \<Longrightarrow> absent st ds = []"
  by (auto simp: absent_def opinions_exists_def filter_empty_conv)

lemma insertOpinionChunks_frame:
  assumes a: "insertOpinionChunks docs st = (r, st')"
  shows "cases st' = cases st \<and> control st' = control st \<and>
     (\<exists>new. opinions st' = opinions st @ new \<and> (case r of Some n \<Rightarrow> n | None \<Rightarrow> 0) = length new) \<and>
     (\<exists>evs. log st' = log st @ evs \<and>
        (\<forall>e \<in> set evs. (\<exists>a b c. e = OpinionsFindOne a b c) \<or> (\<exists>k. e = OpinionsInsertMany k \<and> 0 < k \<and> k \<le> BATCH)))"
proof (cases "docs = []")
  case True
  with a show ?thesis by (auto simp: insertOpinionChunks_def)
next
  case False
  from insertOpinionChunks_loop[OF False a] obtain n where n: "r = Some n" "insertLoop docs 0 0 st = (n, st')"
    by blast
  from insertLoop_append[OF n(2)] insertLoop_frame[OF n(2)] insertLoop_log[OF n(2)] n(1)
  show ?thesis by auto
qed

section \<open>Claim C3: the retry policy of fetchJsonWithRetry\<close>

text \<open>
  C3 says that a status outside the retriable set fails immediately, without retry, and
  that the call fails for good after 8 consecutive failures. The code does neither. With
  status 404 at every request, the error thrown for the status is caught by the
  \<open>catch\<close> block of the same call and retried like a network error: the call makes nine
  requests with eight backoff sleeps between them, and only the ninth failure ends it,
  with the error for exhausted retries.
\<close>

theorem fetch_404_is_retried:
  "fetchJsonWithRetry always_404 no_jitter ''u'' ''p'' 1 empty_store =
     (Inl (NetworkErrorAfterRetries ''p'' (StatusMessage ''p'' 404 ''Not Found'' ''missing'')),
      empty_store\<lparr>log :=
        [HttpRequest ''u'', Sleep 600, HttpRequest ''u'', Sleep 1200,
         HttpRequest ''u'', Sleep 2400, HttpRequest ''u'', Sleep 4800,
         HttpRequest ''u'', Sleep 9600, HttpRequest ''u'', Sleep 19200,
         HttpRequest ''u'', Sleep 30000, HttpRequest ''u'', Sleep 30000,
         HttpRequest ''u'']\<rparr>)"
  by (simp add: fetchJsonWithRetry.simps Let_def retriableStatuses_def emit_def sleep_def
        empty_store_def backoff_wait_def backoff_base_def always_404_def no_jitter_def)

text \<open>
  The same holds at any attempt up to the eighth and for any status, retriable or not:
  the call goes on to the next attempt after its backoff sleep.
\<close>

lemma any_status_is_retried:
  assumes "attempt \<le> 8" and "http (length (log st)) url = HttpStatus code stext body"
  shows "fetchJsonWithRetry http rnd url purpose attempt st =
           fetchJsonWithRetry http rnd url purpose (attempt + 1)
             (sleep (backoff_wait attempt (rnd (Suc (length (log st))))) (emit (HttpRequest url) st))"
  using assms by (subst fetchJsonWithRetry.simps) (simp add: Let_def)

section \<open>Claim C8: the backoff grows from attempt to attempt\<close>

lemma backoff_step:
  assumes "1 \<le> a" "backoff_base a < 30000" "j < 500" "j' < 500"
  shows "backoff_wait a j < backoff_wait (Suc a) j'"
proof -
  obtain k where k: "a = Suc k" using assms(1) by (cases a) auto
  define x :: nat where "x = 2 ^ k"
  have p: "1 \<le> x" by (simp add: x_def)
  have b1: "backoff_base a = min 30000 (600 * x)" by (simp add: backoff_base_def k x_def)
  have b2: "backoff_base (Suc a) = min 30000 (1200 * x)" by (simp add: backoff_base_def k x_def)
  show ?thesis using p assms(2,3,4) unfolding backoff_wait_def b1 b2
    by (auto simp: min_def split: if_splits)
qed

text \<open>
  At the cap the order can turn: the jitter alone decides between attempts 7 and 8.
\<close>

lemma backoff_not_increasing_at_cap: "backoff_wait 8 0 < backoff_wait 7 499"
  by (simp add: backoff_wait_def backoff_base_def)

text \<open>
  C8. Take any run of \<open>fetchJsonWithRetry\<close> from attempt 1, whatever the network answers,
  with every jitter below 500. The run sleeps at most eight times; its \<open>i\<close>-th sleep
  (counting from 0, after attempt \<open>i + 1\<close>) lasts \<open>min(30000, 300 * 2^(i + 1))\<close> plus a
  jitter below 500; and as long as the base of a sleep is below the cap of 30000, the
  next sleep of the run is strictly longer.
\<close>

theorem backoff_strictly_increasing_below_cap:
  assumes run: "fetchJsonWithRetry http rnd url purpose 1 st = (r, st')"
    and jitter: "\<forall>n. rnd n < 500"
  shows "length (sleeps (new_events st st')) \<le> 8 \<and>
         (\<forall>i < length (sleeps (new_events st st')).
            \<exists>j < 500. sleeps (new_events st st') ! i = min 30000 (300 * 2 ^ Suc i) + j) \<and>
         (\<forall>i. Suc i < length (sleeps (new_events st st')) \<and> 300 * 2 ^ Suc i < (30000 :: nat) \<longrightarrow>
            sleeps (new_events st st') ! i < sleeps (new_events st st') ! Suc i)"
proof -
  from fetch_run[OF run] obtain js where
    st': "st' = st\<lparr>log := log st @ run_events url 1 js\<rparr>" and js: "set js \<subseteq> range rnd"
    and len: "1 + length js \<le> max 1 9" by blast
  have ne: "new_events st st' = run_events url 1 js"
    by (rule new_events_append) (simp add: st')
  let ?ws = "sleeps (new_events st st')"
  have ws: "?ws = map (\<lambda>(k, j). backoff_wait k j) (zip [1 ..< 1 + length js] js)"
    by (simp only: ne sleeps_run_events)
  have lws: "length ?ws = length js" by (simp add: ws del: upt_Suc)
  have jb: "js ! i < 500" if "i < length js" for i
    using js jitter that by (metis nth_mem subsetD rangeE)
  have nth: "?ws ! i = backoff_wait (Suc i) (js ! i)" if "i < length js" for i
    using that by (simp add: ws del: upt_Suc)
  have c1: "length ?ws \<le> 8" using len lws by simp
  have c2: "\<forall>i < length ?ws. \<exists>j < 500. ?ws ! i = min 30000 (300 * 2 ^ Suc i) + j"
  proof (intro allI impI)
    fix i assume "i < length ?ws"
    then have i: "i < length js" by (simp add: lws)
    show "\<exists>j < 500. ?ws ! i = min 30000 (300 * 2 ^ Suc i) + j"
      using nth[OF i] jb[OF i] by (auto simp: backoff_wait_def backoff_base_def)
  qed
  have c3: "\<forall>i. Suc i < length ?ws \<and> 300 * 2 ^ Suc i < (30000 :: nat) \<longrightarrow> ?ws ! i < ?ws ! Suc i"
  proof (intro allI impI)
    fix i assume a: "Suc i < length ?ws \<and> 300 * 2 ^ Suc i < (30000 :: nat)"
    then have i: "i < length js" and si: "Suc i < length js" by (simp_all add: lws)
    have bb: "backoff_base (Suc i) < 30000" using a by (simp add: backoff_base_def)
    show "?ws ! i < ?ws ! Suc i"
      unfolding nth[OF i] nth[OF si]
      by (rule backoff_step[OF _ bb jb[OF i] jb[OF si]]) simp
  qed
  from c1 c2 c3 show ?thesis by blast
qed

lemma run_429: "fetchJsonWithRetry always_429 no_jitter ''u'' ''p'' 1 empty_store =
     (Inl (NetworkErrorAfterRetries ''p'' (StatusMessage ''p'' 429 ''Too Many Requests'' ''slow down'')),
      store_after_429)"
  by (simp add: fetchJsonWithRetry.simps Let_def retriableStatuses_def emit_def sleep_def
        empty_store_def backoff_wait_def backoff_base_def always_429_def no_jitter_def
        store_after_429_def)

theorem backoff_strictly_increasing_below_cap_witness:
  "fetchJsonWithRetry always_429 no_jitter ''u'' ''p'' 1 empty_store =
     (Inl (NetworkErrorAfterRetries ''p'' (StatusMessage ''p'' 429 ''Too Many Requests'' ''slow down'')),
      store_after_429) \<and>
   (\<forall>n. no_jitter n < 500) \<and>
   sleeps (new_events empty_store store_after_429) = [600, 1200, 2400, 4800, 9600, 19200, 30000, 30000] \<and>
   sleeps (new_events empty_store store_after_429) ! 0 < sleeps (new_events empty_store store_after_429) ! Suc 0"
proof -
  let ?ws = "sleeps (new_events empty_store store_after_429)"
  have j: "\<forall>n. no_jitter n < 500" by (simp add: no_jitter_def)
  have ws: "?ws = [600, 1200, 2400, 4800, 9600, 19200, 30000, 30000]"
    by (simp add: new_events_def empty_store_def store_after_429_def)
  from backoff_strictly_increasing_below_cap[OF run_429 j]
  have "Suc 0 < length ?ws \<and> 300 * 2 ^ Suc 0 < (30000 :: nat) \<longrightarrow> ?ws ! 0 < ?ws ! Suc 0"
    by blast
  moreover have "Suc 0 < length ?ws" by (simp add: ws)
  ultimately have "?ws ! 0 < ?ws ! Suc 0" by simp
  with run_429 j ws show ?thesis by blast
qed

section \<open>Claim C9: an empty cursor is no resume point\<close>

text \<open>
  C9. When resuming, a checkpoint of the job whose \<open>next_url\<close> is the empty string makes
  \<open>loadAllCases\<close> start from the first page of the configured window: the start URL is the
  one it would be without any checkpoint, and the page loop is entered with it. The
  start URL differs from the first page only when there is a checkpoint whose
  \<open>next_url\<close> is that URL and is not empty.
\<close>

theorem resume_ignores_empty_next_url:
  assumes "RESUME cfg" and "control st (JOB_ID cfg) = Some cp" and "cp_next_url cp = Some []"
  shows "fst (startUrl cfg st) = buildClustersFirstPageUrl cfg (START_YEAR cfg) (END_YEAR cfg) \<and>
         fst (startUrl cfg st) = fst (startUrl cfg (st\<lparr>control := (control st)(JOB_ID cfg := None)\<rparr>)) \<and>
         loadAllCases pages fuel cfg w st =
           pagesLoop pages fuel cfg w (buildClustersFirstPageUrl cfg (START_YEAR cfg) (END_YEAR cfg)) 0
             (emit (ControlFindOne (JOB_ID cfg)) st) \<and>
         (\<forall>st2 :: 'v store. fst (startUrl cfg st2) \<noteq> buildClustersFirstPageUrl cfg (START_YEAR cfg) (END_YEAR cfg) \<longrightarrow>
            (\<exists>c. control st2 (JOB_ID cfg) = Some c \<and> cp_next_url c = Some (fst (startUrl cfg st2)) \<and>
                 fst (startUrl cfg st2) \<noteq> []))"
  using assms
  by (auto simp: startUrl_def loadAllCases_def readCheckpoint_def Let_def
           split: option.splits list.splits)

theorem resume_ignores_empty_next_url_witness:
  "RESUME example_config \<and>
   control exhausted_store (JOB_ID example_config) = Some exhausted_checkpoint \<and>
   cp_next_url exhausted_checkpoint = Some [] \<and>
   fst (startUrl example_config exhausted_store) =
     buildClustersFirstPageUrl example_config (START_YEAR example_config) (END_YEAR example_config)"
proof -
  have a: "RESUME example_config" by (simp add: example_config_def)
  have b: "control exhausted_store (JOB_ID example_config) = Some exhausted_checkpoint"
    by (simp add: example_config_def exhausted_store_def)
  have c: "cp_next_url exhausted_checkpoint = Some []" by (simp add: exhausted_checkpoint_def)
  from resume_ignores_empty_next_url[OF a b c] a b c show ?thesis by blast
qed

section \<open>Claim C10: normalizeSection\<close>

lemma starts_with_iff: "starts_with t p \<longleftrightarrow> (\<exists>b. t = p @ b)"
  by (induction t p rule: starts_with.induct) auto

lemma str_includes_iff: "str_includes t p \<longleftrightarrow> (\<exists>a b. t = a @ p @ b)"
proof (induction t)
  case Nil
  show ?case by (auto simp: starts_with_iff)
next
  case (Cons c cs)
  have "(\<exists>a b. c # cs = a @ p @ b) \<longleftrightarrow> (\<exists>b. c # cs = p @ b) \<or> (\<exists>a b. cs = a @ p @ b)"
  proof
    assume "\<exists>a b. c # cs = a @ p @ b"
    then obtain a b where ab: "c # cs = a @ p @ b" by blast
    show "(\<exists>b. c # cs = p @ b) \<or> (\<exists>a b. cs = a @ p @ b)"
    proof (cases a)
      case Nil
      with ab show ?thesis by auto
    next
      case (Cons x xs)
      with ab have "cs = xs @ p @ b" by simp
      then show ?thesis by blast
    qed
  next
    assume "(\<exists>b. c # cs = p @ b) \<or> (\<exists>a b. cs = a @ p @ b)"
    then show "\<exists>a b. c # cs = a @ p @ b"
    proof
      assume "\<exists>b. c # cs = p @ b"
      then obtain b where "c # cs = [] @ p @ b" by auto
      then show ?thesis by blast
    next
      assume "\<exists>a b. cs = a @ p @ b"
      then obtain a b where "c # cs = (c # a) @ p @ b" by auto
      then show ?thesis by blast
    qed
  qed
  then show ?case by (simp add: Cons.IH starts_with_iff)
qed

lemma lower_char_idem: "lower_char (lower_char c) = lower_char c"
proof (cases "(65 \<le> (of_char c :: nat) \<and> (of_char c :: nat) \<le> 90) \<or>
              (192 \<le> (of_char c :: nat) \<and> (of_char c :: nat) \<le> 222 \<and> (of_char c :: nat) \<noteq> 215)")
  case True
  then have "(of_char (char_of (of_char c + (32::nat)) :: char) :: nat) = of_char c + 32"
    by (auto simp: of_char_of)
  with True show ?thesis by (auto simp: lower_char_def Let_def)
next
  case False
  then show ?thesis by (auto simp: lower_char_def Let_def)
qed

lemma toLowerCase_idem: "toLowerCase (toLowerCase s) = toLowerCase s"
  by (simp add: toLowerCase_def lower_char_idem)

text \<open>
  The precedence at work: in a label that names the majority, the first test wins,
  whatever else the label contains.
\<close>

lemma normalizeSection_majority_first:
  "str_includes (toLowerCase ''Majority opinion, concurring in part and dissenting in part'') ''concurr'' \<and>
   str_includes (toLowerCase ''Majority opinion, concurring in part and dissenting in part'') ''dissent'' \<and>
   normalizeSection (Some ''Majority opinion, concurring in part and dissenting in part'') = majority"
  by code_simp

text \<open>
  C10. \<open>normalizeSection\<close> returns one of the six tags for every input, \<open>other\<close> for
  \<open>null\<close> and \<open>undefined\<close>; letter case does not matter; the tag is decided by the
  first of the substrings \<open>majority\<close>, \<open>concurr\<close>, \<open>dissent\<close>, \<open>per curiam\<close> or
  \<open>per_curiam\<close>, \<open>syllabus\<close>, in this order, that occurs in the lower-cased label; so,
  \<open>majority\<close> coming first, a label that contains both \<open>concurr\<close> and \<open>dissent\<close> is
  classified as \<open>concurrence\<close>, \<open>concurr\<close> being tested before \<open>dissent\<close>.
\<close>

theorem normalizeSection_precedence:
  "normalizeSection None = other \<and>
   normalizeSection x \<in> {majority, concurrence, dissent, per_curiam, syllabus, other} \<and>
   normalizeSection (Some (toLowerCase s)) = normalizeSection (Some s) \<and>
   normalizeSection (Some s) =
     (if \<exists>a b. toLowerCase s = a @ ''majority'' @ b then majority
      else if \<exists>a b. toLowerCase s = a @ ''concurr'' @ b then concurrence
      else if \<exists>a b. toLowerCase s = a @ ''dissent'' @ b then dissent
      else if (\<exists>a b. toLowerCase s = a @ ''per curiam'' @ b) \<or> (\<exists>a b. toLowerCase s = a @ ''per_curiam'' @ b) then per_curiam
      else if \<exists>a b. toLowerCase s = a @ ''syllabus'' @ b then syllabus
      else other) \<and>
   ((\<exists>a b. toLowerCase s = a @ ''concurr'' @ b) \<and> (\<exists>a b. toLowerCase s = a @ ''dissent'' @ b) \<and>
    \<not> (\<exists>a b. toLowerCase s = a @ ''majority'' @ b) \<longrightarrow> normalizeSection (Some s) = concurrence)"
proof -
  have 1: "normalizeSection None = other"
    by (simp add: normalizeSection_def or_empty_def toLowerCase_def)
  have 2: "normalizeSection x \<in> {majority, concurrence, dissent, per_curiam, syllabus, other}"
    by (cases "normalizeSection x") simp_all
  have 3: "normalizeSection (Some (toLowerCase s)) = normalizeSection (Some s)"
    by (simp add: normalizeSection_def or_empty_def toLowerCase_idem)
  have 4: "normalizeSection (Some s) =
     (if \<exists>a b. toLowerCase s = a @ ''majority'' @ b then majority
      else if \<exists>a b. toLowerCase s = a @ ''concurr'' @ b then concurrence
      else if \<exists>a b. toLowerCase s = a @ ''dissent'' @ b then dissent
      else if (\<exists>a b. toLowerCase s = a @ ''per curiam'' @ b) \<or> (\<exists>a b. toLowerCase s = a @ ''per_curiam'' @ b) then per_curiam
      else if \<exists>a b. toLowerCase s = a @ ''syllabus'' @ b then syllabus
      else other)"
    unfolding normalizeSection_def or_empty_def Let_def str_includes_iff by simp
  have 5: "(\<exists>a b. toLowerCase s = a @ ''concurr'' @ b) \<and> (\<exists>a b. toLowerCase s = a @ ''dissent'' @ b) \<and>
    \<not> (\<exists>a b. toLowerCase s = a @ ''majority'' @ b) \<longrightarrow> normalizeSection (Some s) = concurrence"
    unfolding 4 by simp
  from 1 2 3 4 5 show ?thesis by (intro conjI)
qed

theorem normalizeSection_precedence_witness:
  "(\<exists>a b. toLowerCase ''Concurring in part and DISSENTING in part'' = a @ ''concurr'' @ b) \<and>
   (\<exists>a b. toLowerCase ''Concurring in part and DISSENTING in part'' = a @ ''dissent'' @ b) \<and>
   \<not> (\<exists>a b. toLowerCase ''Concurring in part and DISSENTING in part'' = a @ ''majority'' @ b) \<and>
   normalizeSection (Some ''Concurring in part and DISSENTING in part'') = concurrence"
proof -
  let ?s = "''Concurring in part and DISSENTING in part''"
  have a: "str_includes (toLowerCase ?s) ''concurr''" by code_simp
  have b: "str_includes (toLowerCase ?s) ''dissent''" by code_simp
  have c: "\<not> str_includes (toLowerCase ?s) ''majority''" by code_simp
  from a b c have h: "(\<exists>a b. toLowerCase ?s = a @ ''concurr'' @ b) \<and> (\<exists>a b. toLowerCase ?s = a @ ''dissent'' @ b) \<and>
    \<not> (\<exists>a b. toLowerCase ?s = a @ ''majority'' @ b)"
    unfolding str_includes_iff by blast
  from normalizeSection_precedence[of _ ?s] have "(\<exists>a b. toLowerCase ?s = a @ ''concurr'' @ b) \<and> (\<exists>a b. toLowerCase ?s = a @ ''dissent'' @ b) \<and>
    \<not> (\<exists>a b. toLowerCase ?s = a @ ''majority'' @ b) \<longrightarrow> normalizeSection (Some ?s) = concurrence"
    by blast
  with h show ?thesis by blast
qed

section \<open>What the helpers of processCluster touch\<close>

lemma fetchOpinionsLoop_frame:
  "fetchOpinionsLoop fuel w clusterId url results st = (r, st') \<Longrightarrow>
     \<exists>evs. st' = st\<lparr>log := log st @ evs\<rparr> \<and> attempts evs = [] \<and> checkpoint_writes evs = [] \<and>
           (\<forall>e \<in> set evs. \<not> is_write e)"
proof (induction fuel arbitrary: url results st)
  case 0
  then have "st' = st"
    by (simp add: fetchOpinionsLoop.simps[of 0] split: if_splits)
  then show ?case by (intro exI[of _ "[]"]) simp
next
  case (Suc k)
  show ?case
  proof (cases "url = []")
    case True
    with Suc.prems have "st' = st" by (simp add: fetchOpinionsLoop.simps[of "Suc k"])
    then show ?thesis by (intro exI[of _ "[]"]) simp
  next
    case False
    let ?p = "''fetch opinions for cluster '' @ show_nat clusterId"
    obtain fr st1 where f: "fetchJsonWithRetry (http_opinions w) (random_jitter w) url ?p 1 st = (fr, st1)"
      by (cases "fetchJsonWithRetry (http_opinions w) (random_jitter w) url ?p 1 st")
    from fetch_run[OF f] obtain js where
      st1: "st1 = st\<lparr>log := log st @ run_events url 1 js\<rparr>" by blast
    have nw: "\<forall>e \<in> set (run_events url 1 js). \<not> is_write e"
      using no_write_run_events by blast
    show ?thesis
    proof (cases fr)
      case (Inl e)
      with Suc.prems False f have "st' = st1"
        by (simp add: fetchOpinionsLoop.simps[of "Suc k"])
      with st1 nw show ?thesis by (intro exI[of _ "run_events url 1 js"]) simp
    next
      case (Inr json)
      let ?url' = "or_empty (pg_next json)"
      let ?st2 = "if ?url' \<noteq> [] then sleep 200 st1 else st1"
      let ?mid = "run_events url 1 js @ (if ?url' \<noteq> [] then [Sleep 200] else [])"
      from Inr Suc.prems False f obtain results' where
        rec: "fetchOpinionsLoop k w clusterId ?url' results' ?st2 = (r, st')"
        by (simp add: fetchOpinionsLoop.simps[of "Suc k"] Let_def)
      from Suc.IH[OF rec] obtain evs where
        evs: "st' = ?st2\<lparr>log := log ?st2 @ evs\<rparr>" "attempts evs = []" "checkpoint_writes evs = []"
             "\<forall>e \<in> set evs. \<not> is_write e" by blast
      have st2: "?st2 = st\<lparr>log := log st @ ?mid\<rparr>"
        by (simp add: st1 sleep_def emit_def)
      have "st' = st\<lparr>log := log st @ (?mid @ evs)\<rparr>"
        by (subst evs(1), subst (1 2) st2) simp
      moreover have "attempts (?mid @ evs) = []" "checkpoint_writes (?mid @ evs) = []"
        using evs(2,3) by simp_all
      moreover have "\<forall>e \<in> set (?mid @ evs). \<not> is_write e"
        using evs(4) nw by auto
      ultimately show ?thesis by blast
    qed
  qed
qed

lemma embedBatch_frame:
  "embedBatch w texts st = (r, st') \<Longrightarrow>
     r \<noteq> Diverges \<and> (\<exists>evs. st' = st\<lparr>log := log st @ evs\<rparr> \<and> attempts evs = [] \<and>
        checkpoint_writes evs = [] \<and> requests evs = [] \<and> (\<forall>e \<in> set evs. \<not> is_write e))"
proof -
  assume a: "embedBatch w texts st = (r, st')"
  let ?inputs = "filter (\<lambda>t. t \<noteq> []) (map trim texts)"
  have "r \<noteq> Diverges \<and> (st' = st \<or> st' = emit (EmbeddingsCreate (length ?inputs)) st)"
    using a by (auto simp: embedBatch_def Let_def split: if_splits sum.splits)
  then show ?thesis
  proof (elim conjE disjE)
    assume "r \<noteq> Diverges" "st' = st"
    then show ?thesis by (intro conjI exI[of _ "[]"]) simp_all
  next
    assume "r \<noteq> Diverges" "st' = emit (EmbeddingsCreate (length ?inputs)) st"
    then show ?thesis
      by (intro conjI exI[of _ "[EmbeddingsCreate (length ?inputs)]"]) (simp_all add: emit_def)
  qed
qed



lemma storage_events_quiet:
  "\<forall>e \<in> set evs. (\<exists>a b c. e = OpinionsFindOne a b c) \<or> (\<exists>k. e = OpinionsInsertMany k \<and> 0 < k \<and> k \<le> BATCH) \<Longrightarrow>
     attempts evs = [] \<and> checkpoint_writes evs = [] \<and> requests evs = []"
  by (induction evs) auto

lemma processOpinions_frame:
  "processOpinions cfg w cid dd ops tot st = (r, st') \<Longrightarrow>
     cases st' = cases st \<and> control st' = control st \<and>
     (\<exists>new evs. opinions st' = opinions st @ new \<and> log st' = log st @ evs \<and>
        attempts evs = [] \<and> checkpoint_writes evs = [] \<and> requests evs = [] \<and>
        (\<forall>n. r = Returned n \<longrightarrow> n = tot + length new))"
proof (induction ops arbitrary: tot st)
  case Nil
  then have "st' = st" "r = Returned tot" by simp_all
  then show ?case by (intro conjI exI[of _ "[]"]) simp_all
next
  case (Cons op ops)
  let ?text = "extractOpinionText w op"
  let ?chunks = "splitText w ?text"
  show ?case
  proof (cases "?text = [] \<or> ?chunks = []")
    case True
    with Cons.prems have "processOpinions cfg w cid dd ops tot st = (r, st')"
      by (auto simp: Let_def split: if_splits)
    from Cons.IH[OF this] show ?thesis .
  next
    case False
    obtain er st1 where e: "embedBatch w ?chunks st = (er, st1)"
      by (cases "embedBatch w ?chunks st")
    from embedBatch_frame[OF e] obtain ev1 where
      nd: "er \<noteq> Diverges" and st1: "st1 = st\<lparr>log := log st @ ev1\<rparr>"
      and q1: "attempts ev1 = []" "checkpoint_writes ev1 = []" "requests ev1 = []" by blast
    show ?thesis
    proof (cases er)
      case Diverges
      with nd show ?thesis by simp
    next
      case (Thrown err)
      with Cons.prems False e have "st' = st1" "r = Thrown err" by (auto simp: Let_def)
      with st1 q1 show ?thesis by (intro conjI exI[of _ "[]"] exI[of _ ev1]) simp_all
    next
      case (Returned vectors)
      let ?docs = "build_docs cfg w cid (normalizeSection (js_or (op_type op) (op_opinion_type op)))
          (or_undefined (Some (trim (or_empty (js_or (op_author_str op) (op_author op))))))
          (op_id op) dd vectors ?chunks"
      obtain ins st2 where i: "insertOpinionChunks ?docs st1 = (ins, st2)"
        by (cases "insertOpinionChunks ?docs st1")
      let ?k = "case ins of Some n \<Rightarrow> n | None \<Rightarrow> 0"
      from Returned Cons.prems False e i
      have rec: "processOpinions cfg w cid dd ops (tot + ?k) (sleep 150 st2) = (r, st')"
        by (auto simp: Let_def)
      from insertOpinionChunks_frame[OF i] obtain new2 ev2 where
        f2: "cases st2 = cases st1" "control st2 = control st1"
            "opinions st2 = opinions st1 @ new2" "?k = length new2"
            "log st2 = log st1 @ ev2"
            "\<forall>e \<in> set ev2. (\<exists>a b c. e = OpinionsFindOne a b c) \<or> (\<exists>k. e = OpinionsInsertMany k \<and> 0 < k \<and> k \<le> BATCH)"
        by blast
      from storage_events_quiet[OF f2(6)] have q2:
        "attempts ev2 = []" "checkpoint_writes ev2 = []" "requests ev2 = []" by simp_all
      from Cons.IH[OF rec] obtain new3 ev3 where
        f3: "cases st' = cases (sleep 150 st2)" "control st' = control (sleep 150 st2)"
            "opinions st' = opinions (sleep 150 st2) @ new3" "log st' = log (sleep 150 st2) @ ev3"
            "attempts ev3 = []" "checkpoint_writes ev3 = []" "requests ev3 = []"
            "\<forall>n. r = Returned n \<longrightarrow> n = tot + ?k + length new3"
        by blast
      let ?evs = "ev1 @ ev2 @ Sleep 150 # ev3"
      have c: "cases st' = cases st" "control st' = control st"
        using f3(1,2) f2(1,2) st1 by simp_all
      have o: "opinions st' = opinions st @ (new2 @ new3)"
        using f3(3) f2(3) st1 by simp
      have l: "log st' = log st @ ?evs"
        using f3(4) f2(5) st1 by simp
      have q: "attempts ?evs = []" "checkpoint_writes ?evs = []" "requests ?evs = []"
        using q1 q2 f3(5,6,7) by simp_all
      have n: "\<forall>n. r = Returned n \<longrightarrow> n = tot + length (new2 @ new3)"
        using f3(8) f2(4) by (simp add: add.assoc)
      from c o l q n show ?thesis by blast
    qed
  qed
qed

section \<open>What processCluster does\<close>

lemma fetchOpinionsForCluster_frame:
  "fetchOpinionsForCluster fuel cfg w clusterId st = (r, st') \<Longrightarrow>
     \<exists>evs. st' = st\<lparr>log := log st @ evs\<rparr> \<and> attempts evs = [] \<and> checkpoint_writes evs = [] \<and>
           (\<forall>e \<in> set evs. \<not> is_write e)"
  unfolding fetchOpinionsForCluster_def Let_def by (rule fetchOpinionsLoop_frame)

lemma cd_case_id_build [simp]: "cd_case_id (build_caseDoc cfg c) = case_id_of c"
  by (simp add: build_caseDoc_def)

lemma cd_case_id_indexed_update [simp]: "cd_case_id (indexed_update cid n) = cid"
  by (simp add: indexed_update_def)

lemma upsert_indexed:
  "\<exists>d. cases (upsertCase (indexed_update cid n) st) cid = Some d \<and>
       cd_indexed d = Some True \<and> cd_opinions_count d = Some n"
  by (simp add: upsertCase_def indexed_update_def apply_set_def set_field_def split: option.splits)

lemma processCluster_skip_indexed:
  "already_indexed st c \<Longrightarrow>
     processCluster fuel cfg w c st = (Returned (), emit (CasesFindOne (case_id_of c)) st)"
  by (simp add: processCluster_def Let_def)

lemma processCluster_skip_date:
  "date_guard_skips cfg c \<Longrightarrow>
     processCluster fuel cfg w c st = (Returned (), emit (CasesFindOne (case_id_of c)) st)"
  by (simp add: processCluster_def Let_def)

lemma processCluster_run:
  "\<not> already_indexed st c \<Longrightarrow> \<not> date_guard_skips cfg c \<Longrightarrow>
   processCluster fuel cfg w c st =
     (case fetchOpinionsForCluster fuel cfg w (cl_id c) (metadata_written cfg c st) of
        (Returned ops, st3) \<Rightarrow>
          if ops = [] then (Returned (), upsertCase (indexed_update (case_id_of c) 0) st3)
          else (case processOpinions cfg w (case_id_of c) (cd_decision_date (build_caseDoc cfg c)) ops 0 st3 of
                  (Returned n, st4) \<Rightarrow> (Returned (), upsertCase (indexed_update (case_id_of c) n) st4)
                | (Thrown e, st4) \<Rightarrow> (Thrown e, st4)
                | (Diverges, st4) \<Rightarrow> (Diverges, st4))
      | (Thrown e, st3) \<Rightarrow> (Thrown e, st3)
      | (Diverges, st3) \<Rightarrow> (Diverges, st3))"
  by (simp add: processCluster_def Let_def metadata_written_def)

lemma metadata_written_simps [simp]:
  "opinions (metadata_written cfg c st) = opinions st"
  "control (metadata_written cfg c st) = control st"
  "log (metadata_written cfg c st) = log st @ [CasesFindOne (case_id_of c), CasesUpdateOne (case_id_of c)]"
  by (simp_all add: metadata_written_def)

text \<open>Every call looks the case up first; nothing after that is another look-up or a checkpoint write.\<close>

lemma processCluster_log:
  assumes run: "processCluster fuel cfg w c st = (r, st')"
  shows "control st' = control st \<and>
     (\<exists>new. opinions st' = opinions st @ new) \<and>
     (\<exists>evs. log st' = log st @ CasesFindOne (case_id_of c) # evs \<and>
        attempts evs = [] \<and> checkpoint_writes evs = [])"
proof (cases "already_indexed st c \<or> date_guard_skips cfg c")
  case True
  with run have "st' = emit (CasesFindOne (case_id_of c)) st"
    by (auto simp: processCluster_skip_indexed processCluster_skip_date)
  then show ?thesis by simp
next
  case False
  let ?cid = "case_id_of c"
  let ?m = "metadata_written cfg c st"
  obtain fr st3 where f: "fetchOpinionsForCluster fuel cfg w (cl_id c) ?m = (fr, st3)"
    by (cases "fetchOpinionsForCluster fuel cfg w (cl_id c) ?m")
  from fetchOpinionsForCluster_frame[OF f] obtain ev3 where
    st3: "st3 = ?m\<lparr>log := log ?m @ ev3\<rparr>" and q3: "attempts ev3 = []" "checkpoint_writes ev3 = []"
    by blast
  have c3: "control st3 = control st" "opinions st3 = opinions st"
    "log st3 = log st @ CasesFindOne ?cid # (CasesUpdateOne ?cid # ev3)"
    by (simp_all add: st3)
  have q3': "attempts (CasesUpdateOne ?cid # ev3) = []" "checkpoint_writes (CasesUpdateOne ?cid # ev3) = []"
    using q3 by simp_all
  have direct: ?thesis if "st' = st3"
    using that c3 q3' by (intro conjI exI[of _ "[]"] exI[of _ "CasesUpdateOne ?cid # ev3"]) simp_all
  have marked: ?thesis if "st' = upsertCase (indexed_update ?cid n) st4"
    and "control st4 = control st" and "opinions st4 = opinions st @ new"
    and "log st4 = log st @ CasesFindOne ?cid # evs" and "attempts evs = []" and "checkpoint_writes evs = []"
    for n st4 new evs
    using that by (intro conjI exI[of _ new] exI[of _ "evs @ [CasesUpdateOne ?cid]"]) simp_all
  from run False f have run': "(case fr of
        Returned ops \<Rightarrow>
          if ops = [] then (Returned (), upsertCase (indexed_update ?cid 0) st3)
          else (case processOpinions cfg w ?cid (cd_decision_date (build_caseDoc cfg c)) ops 0 st3 of
                  (Returned n, st4) \<Rightarrow> (Returned (), upsertCase (indexed_update ?cid n) st4)
                | (Thrown e, st4) \<Rightarrow> (Thrown e, st4)
                | (Diverges, st4) \<Rightarrow> (Diverges, st4))
      | Thrown e \<Rightarrow> (Thrown e, st3)
      | Diverges \<Rightarrow> (Diverges, st3)) = (r, st')"
    by (simp add: processCluster_run)
  show ?thesis
  proof (cases fr)
    case (Thrown e)
    with run' show ?thesis by (intro direct) simp
  next
    case Diverges
    with run' show ?thesis by (intro direct) simp
  next
    case (Returned ops)
    show ?thesis
    proof (cases "ops = []")
      case True
      with Returned run' have "st' = upsertCase (indexed_update ?cid 0) st3" by simp
      from marked[OF this c3(1) _ c3(3) q3'] c3(2) show ?thesis by simp
    next
      case False
      obtain pr st4 where p: "processOpinions cfg w ?cid (cd_decision_date (build_caseDoc cfg c)) ops 0 st3 = (pr, st4)"
        by (cases "processOpinions cfg w ?cid (cd_decision_date (build_caseDoc cfg c)) ops 0 st3")
      from processOpinions_frame[OF p] obtain new4 ev4 where
        f4: "control st4 = control st3" "opinions st4 = opinions st3 @ new4" "log st4 = log st3 @ ev4"
            "attempts ev4 = []" "checkpoint_writes ev4 = []" by blast
      let ?evs = "CasesUpdateOne ?cid # ev3 @ ev4"
      have c4: "control st4 = control st" "opinions st4 = opinions st @ new4"
        "log st4 = log st @ CasesFindOne ?cid # ?evs"
        "attempts ?evs = []" "checkpoint_writes ?evs = []"
        using f4 c3 q3 by simp_all
      show ?thesis
      proof (cases pr)
        case (Returned n)
        with \<open>fr = Returned ops\<close> False run' p
        have "st' = upsertCase (indexed_update ?cid n) st4" by simp
        from marked[OF this c4] show ?thesis .
      next
        case (Thrown e)
        with \<open>fr = Returned ops\<close> False run' p have "st' = st4" by simp
        with c4 show ?thesis by (intro conjI exI[of _ new4] exI[of _ ?evs]) simp_all
      next
        case Diverges
        with \<open>fr = Returned ops\<close> False run' p have "st' = st4" by simp
        with c4 show ?thesis by (intro conjI exI[of _ new4] exI[of _ ?evs]) simp_all
      qed
    qed
  qed
qed

text \<open>A completed record is marked with the number of chunks the call inserted.\<close>

lemma processCluster_marks:
  assumes run: "processCluster fuel cfg w c st = (Returned u, st')"
    and ni: "\<not> already_indexed st c" and ng: "\<not> date_guard_skips cfg c"
  shows "\<exists>d. cases st' (case_id_of c) = Some d \<and> cd_indexed d = Some True \<and>
             cd_opinions_count d = Some (length (opinions st') - length (opinions st))"
proof -
  let ?cid = "case_id_of c"
  let ?m = "metadata_written cfg c st"
  obtain fr st3 where f: "fetchOpinionsForCluster fuel cfg w (cl_id c) ?m = (fr, st3)"
    by (cases "fetchOpinionsForCluster fuel cfg w (cl_id c) ?m")
  from fetchOpinionsForCluster_frame[OF f] obtain ev3 where
    st3: "st3 = ?m\<lparr>log := log ?m @ ev3\<rparr>" by blast
  have o3: "opinions st3 = opinions st" by (simp add: st3)
  from run ni ng f have run': "(case fr of
        Returned ops \<Rightarrow>
          if ops = [] then (Returned (), upsertCase (indexed_update ?cid 0) st3)
          else (case processOpinions cfg w ?cid (cd_decision_date (build_caseDoc cfg c)) ops 0 st3 of
                  (Returned n, st4) \<Rightarrow> (Returned (), upsertCase (indexed_update ?cid n) st4)
                | (Thrown e, st4) \<Rightarrow> (Thrown e, st4)
                | (Diverges, st4) \<Rightarrow> (Diverges, st4))
      | Thrown e \<Rightarrow> (Thrown e, st3)
      | Diverges \<Rightarrow> (Diverges, st3)) = (Returned u, st')"
    by (simp add: processCluster_run)
  then obtain ops where fr: "fr = Returned ops" by (cases fr) simp_all
  show ?thesis
  proof (cases "ops = []")
    case True
    with fr run' have st': "st' = upsertCase (indexed_update ?cid 0) st3" by simp
    from upsert_indexed[of ?cid 0 st3] show ?thesis by (simp add: st' o3)
  next
    case False
    obtain pr st4 where p: "processOpinions cfg w ?cid (cd_decision_date (build_caseDoc cfg c)) ops 0 st3 = (pr, st4)"
      by (cases "processOpinions cfg w ?cid (cd_decision_date (build_caseDoc cfg c)) ops 0 st3")
    from fr False run' p obtain n where pr: "pr = Returned n"
      and st': "st' = upsertCase (indexed_update ?cid n) st4"
      by (cases pr) simp_all
    from processOpinions_frame[OF p] pr obtain new4 where
      "opinions st4 = opinions st3 @ new4" "n = 0 + length new4" by blast
    then have cnt: "length (opinions st') - length (opinions st) = n"
      by (simp add: st' o3)
    from upsert_indexed[of ?cid n st4] show ?thesis
      unfolding cnt by (simp add: st')
  qed
qed

section \<open>Numbers as strings\<close>

lemma of_char_digit: "d < 10 \<Longrightarrow> (of_char (digit_char d) :: nat) = 48 + d"
  by (simp add: digit_char_def of_char_of)

lemma show_nat_4:
  assumes "1000 \<le> n" "n \<le> 9999"
  shows "show_nat n = [digit_char (n div 1000), digit_char (n div 100 mod 10),
                       digit_char (n div 10 mod 10), digit_char (n mod 10)]"
proof -
  have a: "\<not> n < 10" "\<not> n div 10 < 10" "\<not> n div 10 div 10 < 10" "n div 10 div 10 div 10 < 10"
    using assms by simp_all
  have d: "n div 10 div 10 = n div 100" "n div 100 div 10 = n div 1000"
    by (simp_all add: div_mult2_eq[symmetric])
  show ?thesis
    apply (subst show_nat.simps, simp only: a if_False)
    apply (subst show_nat.simps, simp only: a if_False)
    apply (subst show_nat.simps, simp only: a if_False)
    apply (subst show_nat.simps, simp only: a if_True)
    apply (simp only: d append.simps)
    done
qed

lemma digits4:
  fixes a :: nat
  shows "a = 1000 * (a div 1000) + (100 * (a div 100 mod 10) + (10 * (a div 10 mod 10) + a mod 10))"
proof -
  have 1: "a = 10 * (a div 10) + a mod 10" by simp
  have 2: "a div 10 = 10 * (a div 100) + a div 10 mod 10"
    using div_mult_mod_eq[of "a div 10" 10] by (simp add: div_mult2_eq[symmetric] mult.commute)
  have 3: "a div 100 = 10 * (a div 1000) + a div 100 mod 10"
    using div_mult_mod_eq[of "a div 100" 10] by (simp add: div_mult2_eq[symmetric] mult.commute)
  show ?thesis
    by (subst 1, subst 2, subst 3) (simp add: algebra_simps)
qed

lemma lex_step:
  fixes q q' r r' m :: nat
  assumes "r < m" "r' < m" "m * q + r < m * q' + r'"
  shows "q < q' \<or> (q = q' \<and> r < r')"
proof (cases q q' rule: linorder_cases)
  case less
  then show ?thesis by simp
next
  case equal
  with assms show ?thesis by simp
next
  case greater
  then have "Suc q' \<le> q" by simp
  then have "m * Suc q' \<le> m * q" by (rule mult_le_mono2)
  with assms show ?thesis by simp
qed

lemma str_lt_digits:
  assumes "a3 < 10" "a2 < 10" "a1 < 10" "a0 < 10" "b3 < 10" "b2 < 10" "b1 < 10" "b0 < 10"
    and "a3 < b3 \<or> (a3 = b3 \<and> (a2 < b2 \<or> (a2 = b2 \<and> (a1 < b1 \<or> (a1 = b1 \<and> a0 < b0)))))"
  shows "str_lt ([digit_char a3, digit_char a2, digit_char a1, digit_char a0] @ s)
                ([digit_char b3, digit_char b2, digit_char b1, digit_char b0] @ t)"
  using assms by (auto simp: of_char_digit)

lemma str_lt_4digit:
  assumes a: "1000 \<le> a" "a \<le> 9999" and b: "1000 \<le> b" "b \<le> 9999" and lt: "a < b"
  shows "str_lt (show_nat a @ s) (show_nat b @ t)"
proof -
  define a3 a2 a1 a0 where "a3 = a div 1000" and "a2 = a div 100 mod 10" and "a1 = a div 10 mod 10" and "a0 = a mod 10"
  define b3 b2 b1 b0 where "b3 = b div 1000" and "b2 = b div 100 mod 10" and "b1 = b div 10 mod 10" and "b0 = b mod 10"
  have da: "a3 < 10" "a2 < 10" "a1 < 10" "a0 < 10" using a by (simp_all add: a3_def a2_def a1_def a0_def)
  have db: "b3 < 10" "b2 < 10" "b1 < 10" "b0 < 10" using b by (simp_all add: b3_def b2_def b1_def b0_def)
  define ra rb where "ra = 100 * a2 + (10 * a1 + a0)" and "rb = 100 * b2 + (10 * b1 + b0)"
  define sa sb where "sa = 10 * a1 + a0" and "sb = 10 * b1 + b0"
  have ea: "a = 1000 * a3 + ra" unfolding ra_def a3_def a2_def a1_def a0_def by (rule digits4)
  have eb: "b = 1000 * b3 + rb" unfolding rb_def b3_def b2_def b1_def b0_def by (rule digits4)
  have sab: "sa < 100" "sb < 100" using da db by (simp_all add: sa_def sb_def)
  have rab: "ra < 1000" "rb < 1000" "ra = 100 * a2 + sa" "rb = 100 * b2 + sb"
    using da db by (simp_all add: ra_def rb_def sa_def sb_def)
  from lt have "1000 * a3 + ra < 1000 * b3 + rb" by (simp only: ea eb)
  from lex_step[OF rab(1,2) this] have s1: "a3 < b3 \<or> (a3 = b3 \<and> ra < rb)" .
  have s2: "a2 < b2 \<or> (a2 = b2 \<and> sa < sb)" if "ra < rb"
    using lex_step[OF sab, of a2 b2] that by (simp only: rab(3,4))
  have s3: "a1 < b1 \<or> (a1 = b1 \<and> a0 < b0)" if "sa < sb"
    using lex_step[OF da(4) db(4), of a1 b1] that by (simp only: sa_def sb_def)
  have cmp: "a3 < b3 \<or> (a3 = b3 \<and> (a2 < b2 \<or> (a2 = b2 \<and> (a1 < b1 \<or> (a1 = b1 \<and> a0 < b0)))))"
    using s1 s2 s3 by blast
  have sa': "show_nat a = [digit_char a3, digit_char a2, digit_char a1, digit_char a0]"
    unfolding a3_def a2_def a1_def a0_def by (rule show_nat_4[OF a])
  have sb': "show_nat b = [digit_char b3, digit_char b2, digit_char b1, digit_char b0]"
    unfolding b3_def b2_def b1_def b0_def by (rule show_nat_4[OF b])
  show ?thesis unfolding sa' sb' by (rule str_lt_digits[OF da db cmp])
qed

lemma parse_nat_snoc: "parse_nat (s @ [c]) = 10 * parse_nat s + (of_char c - 48)"
  by (simp add: parse_nat_def)

lemma parse_show_nat: "parse_nat (show_nat n) = n"
proof (induction n rule: show_nat.induct)
  case (1 n)
  show ?case
  proof (cases "n < 10")
    case True
    then show ?thesis
      by (subst show_nat.simps) (simp add: parse_nat_def of_char_digit)
  next
    case False
    have m: "n mod 10 < 10" by simp
    from False "1.IH" have ih: "parse_nat (show_nat (n div 10)) = n div 10" by simp
    show ?thesis
      by (subst show_nat.simps) (simp add: False parse_nat_snoc ih of_char_digit[OF m])
  qed
qed

lemma show_nat_inj: "show_nat a = show_nat b \<Longrightarrow> a = b"
  by (metis parse_show_nat)

lemma show_nat_nonempty: "show_nat n \<noteq> []"
  by (subst show_nat.simps) simp

section \<open>Claim C1: records outside the date window\<close>

text \<open>
  C1. Let the configured years and the year of the record's date be four-digit years, as
  ISO dates have them, and let the date start with a year before \<open>START_YEAR\<close> or after
  \<open>END_YEAR\<close>. Then the page-level filter of the orchestrator skips the record, so the
  loop over the page goes on as if the record were not there; and the date guard of
  \<open>processCluster\<close> skips it too: a call returns after its one look-up, and the stored
  cases, chunks and checkpoints are what they were.
\<close>

theorem out_of_window_record_is_skipped:
  assumes years: "1000 \<le> START_YEAR cfg" "START_YEAR cfg \<le> 9999" "1000 \<le> END_YEAR cfg" "END_YEAR cfg \<le> 9999"
    and date: "cl_date_filed c = Some (show_nat y @ rest)" "1000 \<le> y" "y \<le> 9999"
    and out: "y < START_YEAR cfg \<or> END_YEAR cfg < y"
  shows "page_filter_skips cfg c \<and>
         clustersLoop fuel cfg w (c # cs) n st = clustersLoop fuel cfg w cs n st \<and>
         date_guard_skips cfg c \<and>
         processCluster fuel cfg w c st = (Returned (), emit (CasesFindOne (case_id_of c)) st) \<and>
         cases (snd (processCluster fuel cfg w c st)) = cases st \<and>
         opinions (snd (processCluster fuel cfg w c st)) = opinions st \<and>
         control (snd (processCluster fuel cfg w c st)) = control st"
proof -
  have len: "length (show_nat y) = 4" by (simp add: show_nat_4[OF date(2,3)])
  have ne: "show_nat y @ rest \<noteq> []" using show_nat_nonempty by simp
  have lo: "str_lt (show_nat y @ r1) (show_nat (START_YEAR cfg) @ r2)" if "y < START_YEAR cfg" for r1 r2
    by (rule str_lt_4digit[OF date(2,3) years(1,2) that])
  have hi: "str_lt (show_nat (END_YEAR cfg) @ r2) (show_nat y @ r1)" if "END_YEAR cfg < y" for r1 r2
    by (rule str_lt_4digit[OF years(3,4) date(2,3) that])
  have df: "take 10 (show_nat y @ rest) = show_nat y @ take 6 rest" by (simp add: len)
  have p: "page_filter_skips cfg c"
    unfolding page_filter_skips_def Let_def date(1) or_empty_def option.case df str_gt_def
    using out lo hi show_nat_nonempty by auto
  have dd: "or_undefined (Some (show_nat y @ rest)) = Some (show_nat y @ rest)"
    using ne by (cases "show_nat y @ rest") (simp_all add: or_undefined_def js_or_def)
  have g: "date_guard_skips cfg c"
    unfolding date_guard_skips_def Let_def date(1) dd option.case str_gt_def
    using out lo hi by auto
  have pc: "processCluster fuel cfg w c st = (Returned (), emit (CasesFindOne (case_id_of c)) st)"
    by (rule processCluster_skip_date[OF g])
  have cl: "clustersLoop fuel cfg w (c # cs) n st = clustersLoop fuel cfg w cs n st"
    using p by simp
  from p cl g pc show ?thesis by simp
qed

lemma late_date: "cl_date_filed late_cluster = Some (show_nat 2025 @ ''-01-15'')"
  by code_simp

theorem out_of_window_record_is_skipped_witness:
  "1000 \<le> START_YEAR example_config \<and> START_YEAR example_config \<le> 9999 \<and>
   1000 \<le> END_YEAR example_config \<and> END_YEAR example_config \<le> 9999 \<and>
   cl_date_filed late_cluster = Some (show_nat 2025 @ ''-01-15'') \<and>
   END_YEAR example_config < 2025 \<and>
   page_filter_skips example_config late_cluster \<and>
   date_guard_skips example_config late_cluster \<and>
   cases (snd (processCluster 0 example_config example_env late_cluster empty_store)) = cases empty_store \<and>
   opinions (snd (processCluster 0 example_config example_env late_cluster empty_store)) = opinions empty_store"
proof -
  have y: "1000 \<le> START_YEAR example_config" "START_YEAR example_config \<le> 9999"
    "1000 \<le> END_YEAR example_config" "END_YEAR example_config \<le> 9999"
    by (simp_all add: example_config_def)
  have o: "2025 < START_YEAR example_config \<or> END_YEAR example_config < 2025"
    by (simp add: example_config_def)
  have e: "END_YEAR example_config < 2025" by (simp add: example_config_def)
  from out_of_window_record_is_skipped[OF y late_date _ _ o, of 0 example_env "[]" 0 empty_store]
    y e late_date
  show ?thesis by simp
qed

text \<open>
  The upper bound of the page-level filter is written with an unpadded month,
  \<open>END_YEAR-5-01\<close>. As a string it is above every date of \<open>END_YEAR\<close>, so the filter
  lets the whole last year through, as the guard of \<open>processCluster\<close> does.
\<close>

lemma page_filter_keeps_all_of_end_year:
  "\<not> page_filter_skips example_config december_cluster \<and>
   \<not> date_guard_skips example_config december_cluster"
  by code_simp

section \<open>Claim C4: a record that is already indexed\<close>

text \<open>
  C4. If the stored case for the record's \<open>case_id\<close> has \<open>indexed = true\<close>, then
  \<open>processCluster\<close> returns after its one look-up of the case, whatever the fuel: the
  look-up is all that it adds to the log, so it makes no request and no write, and the
  stored cases, chunks and checkpoints are what they were.
\<close>

theorem indexed_record_is_skipped:
  assumes "cases st (case_id_of c) = Some doc" and "cd_indexed doc = Some True"
  shows "processCluster fuel cfg w c st = (Returned (), st\<lparr>log := log st @ [CasesFindOne (case_id_of c)]\<rparr>) \<and>
         new_events st (snd (processCluster fuel cfg w c st)) = [CasesFindOne (case_id_of c)] \<and>
         requests (new_events st (snd (processCluster fuel cfg w c st))) = [] \<and>
         (\<forall>e \<in> set (new_events st (snd (processCluster fuel cfg w c st))). \<not> is_write e) \<and>
         cases (snd (processCluster fuel cfg w c st)) = cases st \<and>
         opinions (snd (processCluster fuel cfg w c st)) = opinions st \<and>
         control (snd (processCluster fuel cfg w c st)) = control st"
proof -
  from assms have "already_indexed st c" by (simp add: already_indexed_def)
  from processCluster_skip_indexed[OF this]
  have "processCluster fuel cfg w c st = (Returned (), st\<lparr>log := log st @ [CasesFindOne (case_id_of c)]\<rparr>)"
    by (simp add: emit_def)
  then show ?thesis by (simp add: new_events_def)
qed

lemma ex_case_id: "case_id_of example_cluster = ''cl:1''"
  by code_simp

theorem indexed_record_is_skipped_witness:
  "cases indexed_store (case_id_of example_cluster) = Some indexed_doc \<and>
   cd_indexed indexed_doc = Some True \<and>
   processCluster 0 example_config example_env example_cluster indexed_store =
     (Returned (), indexed_store\<lparr>log := [CasesFindOne ''cl:1'']\<rparr>)"
proof -
  have a: "cases indexed_store (case_id_of example_cluster) = Some indexed_doc"
    by (simp add: ex_case_id indexed_store_def)
  have b: "cd_indexed indexed_doc = Some True" by (simp add: indexed_doc_def indexed_update_def)
  have l: "log indexed_store = []" by (simp add: indexed_store_def empty_store_def)
  from indexed_record_is_skipped[OF a b, of 0 example_config example_env] a b show ?thesis
    by (simp add: ex_case_id l)
qed

section \<open>Claim C6: the content hash\<close>

lemma build_docs_member:
  assumes "d \<in> set (build_docs cfg w cid sec au oid dd vs chunks)"
  shows "oc_opinion_id d = ''clop:'' @ show_nat oid \<and>
         oc_content_hash d = content_hash w oid (oc_chunk_index d) (oc_text d) \<and>
         oc_chunk_index d < length chunks \<and> oc_text d = chunks ! oc_chunk_index d"
proof -
  from assms obtain i c where ic: "(i, c) \<in> set (enumerate 0 chunks)"
    and d: "d = \<lparr> oc_case_id = cid, oc_section = sec, oc_author = au,
              oc_opinion_id = ''clop:'' @ show_nat oid, oc_chunk_index = i, oc_text = c,
              oc_vector = (if i < length vs then Some (vs ! i) else None),
              oc_decision_date = dd, oc_content_hash = content_hash w oid i c,
              oc_source_url = COURTLISTENER_BASE cfg @ ''/api/rest/v4/opinions/'' @ show_nat oid @ ''/'' \<rparr>"
    unfolding build_docs_def by auto
  from ic have "i < length chunks" "c = chunks ! i" by (auto simp: in_set_enumerate_eq)
  with d show ?thesis by simp
qed

text \<open>
  C6. Take two chunk documents, each built by \<open>processCluster\<close> from the chunks of an
  opinion, in the same run or in two runs that differ in anything but the digest
  function. If they agree on \<open>opinion_id\<close>, \<open>chunk_index\<close> and \<open>text\<close>, they have the
  same \<open>content_hash\<close>: it is the digest of the opinion's number, the index and the text,
  joined by colons.
\<close>

theorem content_hash_deterministic:
  assumes "sha1 w = sha1 w'"
    and "d \<in> set (build_docs cfg w cid sec au oid dd vs chunks)"
    and "d' \<in> set (build_docs cfg' w' cid' sec' au' oid' dd' vs' chunks')"
    and "oc_opinion_id d = oc_opinion_id d'"
    and "oc_chunk_index d = oc_chunk_index d'"
    and "oc_text d = oc_text d'"
  shows "oc_content_hash d = oc_content_hash d' \<and>
         oc_content_hash d = sha1 w (show_nat oid @ '':'' @ show_nat (oc_chunk_index d) @ '':'' @ oc_text d)"
proof -
  from build_docs_member[OF assms(2)] have 1:
    "oc_opinion_id d = ''clop:'' @ show_nat oid"
    "oc_content_hash d = content_hash w oid (oc_chunk_index d) (oc_text d)" by simp_all
  from build_docs_member[OF assms(3)] have 2:
    "oc_opinion_id d' = ''clop:'' @ show_nat oid'"
    "oc_content_hash d' = content_hash w' oid' (oc_chunk_index d') (oc_text d')" by simp_all
  from 1(1) 2(1) assms(4) have "show_nat oid = show_nat oid'" by simp
  then have "oid = oid'" by (rule show_nat_inj)
  with 1(2) 2(2) assms(1,5,6) show ?thesis by (simp add: content_hash_def)
qed

theorem content_hash_deterministic_witness:
  "sha1 example_env = sha1 example_env \<and>
   chunk_a \<in> set (build_docs example_config example_env ''cl:1'' other (Some ''Justice A'') 7
                     (Some ''2010-06-01'') [()] [''Held.'']) \<and>
   chunk_a_elsewhere \<in> set (build_docs (example_config\<lparr>COURTLISTENER_BASE := ''https://mirror''\<rparr>)
                     example_env ''cl:9'' majority None 7 None [] [''Held.'']) \<and>
   oc_opinion_id chunk_a = oc_opinion_id chunk_a_elsewhere \<and>
   oc_chunk_index chunk_a = oc_chunk_index chunk_a_elsewhere \<and>
   oc_text chunk_a = oc_text chunk_a_elsewhere \<and>
   oc_content_hash chunk_a = oc_content_hash chunk_a_elsewhere"
proof -
  have m1: "chunk_a \<in> set (build_docs example_config example_env ''cl:1'' other (Some ''Justice A'') 7
                     (Some ''2010-06-01'') [()] [''Held.''])"
    by code_simp
  have m2: "chunk_a_elsewhere \<in> set (build_docs (example_config\<lparr>COURTLISTENER_BASE := ''https://mirror''\<rparr>)
                     example_env ''cl:9'' majority None 7 None [] [''Held.''])"
    by code_simp
  have e: "oc_opinion_id chunk_a = oc_opinion_id chunk_a_elsewhere"
    "oc_chunk_index chunk_a = oc_chunk_index chunk_a_elsewhere"
    "oc_text chunk_a = oc_text chunk_a_elsewhere"
    by (simp_all add: chunk_a_elsewhere_def)
  from content_hash_deterministic[OF refl m1 m2 e] m1 m2 e show ?thesis by simp
qed

section \<open>Claim C2: deduplicated insertion of chunks\<close>

lemma sub_batches_distinct_drop:
  "i < length docs \<Longrightarrow>
     sub_batches_distinct (drop i docs) =
       (distinct (map chunk_key (take BATCH (drop i docs))) \<and> sub_batches_distinct (drop (i + BATCH) docs))"
  by (subst sub_batches_distinct.simps) (simp add: add.commute[of i BATCH])

lemma distinct_sub_batches: "distinct (map chunk_key docs) \<Longrightarrow> sub_batches_distinct docs"
proof (induction "length docs" arbitrary: docs rule: less_induct)
  case less
  show ?case
  proof (cases "docs = []")
    case True
    then show ?thesis by (simp add: sub_batches_distinct.simps)
  next
    case False
    then have len: "length (drop BATCH docs) < length docs" by (simp add: BATCH_def)
    from less.prems have "distinct (map chunk_key (take BATCH docs @ drop BATCH docs))" by simp
    then have d1: "distinct (map chunk_key (take BATCH docs))" and d2: "distinct (map chunk_key (drop BATCH docs))"
      unfolding map_append distinct_append by blast+
    from less.hyps[OF len d2] d1 False show ?thesis
      by (subst sub_batches_distinct.simps) simp
  qed
qed

lemma insertLoop_invariant:
  "insertLoop docs i inserted st = (n, st') \<Longrightarrow> sub_batches_distinct (drop i docs) \<Longrightarrow>
     distinct (map chunk_key (opinions st)) \<Longrightarrow> distinct (map chunk_key (opinions st'))"
proof (induction "length docs - i" arbitrary: i inserted st rule: less_induct)
  case less
  show ?case
  proof (cases "i < length docs")
    case False
    with less.prems show ?thesis by (simp add: insertLoop_stop)
  next
    case True
    let ?s = "take BATCH (drop i docs)"
    from less.prems(1) have rec: "insertLoop docs (i + BATCH) (inserted + length (absent st ?s))
       (after_slice st ?s) = (n, st')"
      by (simp add: insertLoop_step[OF True])
    from less.prems(2) have ds: "distinct (map chunk_key ?s)"
      and rest: "sub_batches_distinct (drop (i + BATCH) docs)"
      by (simp_all add: sub_batches_distinct_drop[OF True])
    have da: "distinct (map chunk_key (absent st ?s))"
      unfolding absent_def by (rule distinct_map_filter[OF ds])
    have disj: "set (map chunk_key (opinions st)) \<inter> set (map chunk_key (absent st ?s)) = {}"
      by (auto simp: absent_def opinions_exists_def)
    have "distinct (map chunk_key (opinions (after_slice st ?s)))"
      using less.prems(3) da disj by simp
    from less.hyps[OF fuel_dec[OF True] rec rest this] show ?thesis .
  qed
qed

lemma rerun_inserts_nothing:
  assumes "set (map chunk_key docs) \<subseteq> set (map chunk_key (opinions st))"
  shows "fst (insertOpinionChunks docs st) = (if docs = [] then None else Some 0) \<and>
         opinions (snd (insertOpinionChunks docs st)) = opinions st"
proof (cases "docs = []")
  case True
  then show ?thesis by (simp add: insertOpinionChunks_def)
next
  case False
  obtain r2 st2 where again: "insertOpinionChunks docs st = (r2, st2)"
    by (cases "insertOpinionChunks docs st")
  from insertOpinionChunks_loop[OF False again] obtain n2 where
    r2: "r2 = Some n2" and loop2: "insertLoop docs 0 0 st = (n2, st2)" by blast
  from insertLoop_append[OF loop2] obtain new2 where
    new2: "opinions st2 = opinions st @ new2" "n2 = 0 + length new2"
      "set new2 \<subseteq> set (absent st (drop 0 docs))" by blast
  have "new2 = []" using new2(3) absent_all_present[OF assms] by simp
  with new2 r2 again False show ?thesis by simp
qed

lemma show_nat_digits: "c \<in> set (show_nat n) \<Longrightarrow> c \<noteq> CHR '':''"
proof (induction n rule: show_nat.induct)
  case (1 n)
  have dc: "digit_char d \<noteq> CHR '':''" if "d < 10" for d
  proof
    assume "digit_char d = CHR '':''"
    then have "(of_char (digit_char d) :: nat) = of_char CHR '':''" by simp
    with that show False by (simp add: of_char_digit)
  qed
  show ?case
  proof (cases "n < 10")
    case True
    with "1.prems" have "c = digit_char n" by (subst (asm) show_nat.simps) simp
    with dc[OF True] show ?thesis by simp
  next
    case False
    with "1.prems" have "c \<in> set (show_nat (n div 10)) \<or> c = digit_char (n mod 10)"
      by (subst (asm) show_nat.simps) auto
    then show ?thesis
    proof
      assume "c \<in> set (show_nat (n div 10))"
      with "1.IH"[OF False] show ?thesis by simp
    next
      assume "c = digit_char (n mod 10)"
      with dc[of "n mod 10"] show ?thesis by simp
    qed
  qed
qed

lemma before_colon:
  assumes "a @ CHR '':'' # r = b @ CHR '':'' # r'"
    and "CHR '':'' \<notin> set a" and "CHR '':'' \<notin> set b"
  shows "a = b"
proof -
  have "takeWhile (\<lambda>c. c \<noteq> CHR '':'') (a @ CHR '':'' # r) = a"
    using assms(2) by (subst takeWhile_append2) auto
  moreover have "takeWhile (\<lambda>c. c \<noteq> CHR '':'') (b @ CHR '':'' # r') = b"
    using assms(3) by (subst takeWhile_append2) auto
  ultimately show ?thesis using assms(1) by simp
qed

lemma hashed_text_index:
  "hashed_text oid (i, c) = hashed_text oid (j, c') \<Longrightarrow> i = j \<and> c = c'"
proof -
  assume "hashed_text oid (i, c) = hashed_text oid (j, c')"
  then have e: "show_nat i @ CHR '':'' # c = show_nat j @ CHR '':'' # c'"
    by (simp add: hashed_text_def)
  have "show_nat i = show_nat j"
    by (rule before_colon[OF e]) (use show_nat_digits in blast)+
  with e show ?thesis by (simp add: show_nat_inj)
qed

lemma build_docs_keys:
  "map chunk_key (build_docs cfg w cid sec au oid dd vs chunks) =
     map (\<lambda>ic. (cid, ''clop:'' @ show_nat oid, sha1 w (hashed_text oid ic))) (enumerate 0 chunks)"
  by (simp add: build_docs_def chunk_key_def content_hash_def hashed_text_def case_prod_beta)

lemma build_docs_distinct:
  assumes "inj_on (sha1 w) (hashed_text oid ` set (enumerate 0 chunks))"
  shows "distinct (map chunk_key (build_docs cfg w cid sec au oid dd vs chunks))"
proof -
  have "inj_on (hashed_text oid) (set (enumerate 0 chunks))"
    by (rule inj_onI) (auto dest: hashed_text_index)
  then have "inj_on (\<lambda>ic. (cid, ''clop:'' @ show_nat oid, sha1 w (hashed_text oid ic))) (set (enumerate 0 chunks))"
    using assms by (auto simp: inj_on_def)
  moreover have "distinct (enumerate 0 chunks)" by (simp add: distinct_enumerate)
  ultimately show ?thesis unfolding build_docs_keys by (simp add: distinct_map)
qed

lemma insertOpinionChunks_effect:
  assumes ins: "insertOpinionChunks docs st = (r, st')"
  shows "probes (new_events st st') = map chunk_key docs \<and>
         (\<exists>new. opinions st' = opinions st @ new \<and> set new \<subseteq> set docs \<and>
                (\<forall>d \<in> set new. \<not> opinions_exists d st) \<and>
                r = (if docs = [] then None else Some (length new))) \<and>
         set (map chunk_key docs) \<subseteq> set (map chunk_key (opinions st')) \<and>
         (distinct (map chunk_key docs) \<longrightarrow>
            opinions st' = opinions st @ filter (\<lambda>d. \<not> opinions_exists d st) docs) \<and>
         (\<forall>e \<in> set (new_events st st'). \<forall>k. e = OpinionsInsertMany k \<longrightarrow> k \<le> 40) \<and>
         cases st' = cases st \<and> control st' = control st \<and>
         (sub_batches_distinct docs \<and> distinct (map chunk_key (opinions st)) \<longrightarrow>
            distinct (map chunk_key (opinions st')))"
proof (cases "docs = []")
  case True
  with ins have "st' = st" "r = None" by (simp_all add: insertOpinionChunks_def)
  with True show ?thesis by (simp add: new_events_def)
next
  case False
  from insertOpinionChunks_loop[OF False ins] obtain n where
    r: "r = Some n" and loop: "insertLoop docs 0 0 st = (n, st')" by blast
  from insertLoop_append[OF loop] obtain new where
    new: "opinions st' = opinions st @ new" "n = 0 + length new"
      "set new \<subseteq> set (absent st (drop 0 docs))" by blast
  have n: "\<exists>new. opinions st' = opinions st @ new \<and> set new \<subseteq> set docs \<and>
            (\<forall>d \<in> set new. \<not> opinions_exists d st) \<and>
            r = (if docs = [] then None else Some (length new))"
    using new r False by (intro exI[of _ new]) (auto simp: absent_def)
  have ex: "distinct (map chunk_key docs) \<longrightarrow>
        opinions st' = opinions st @ filter (\<lambda>d. \<not> opinions_exists d st) docs"
    using insertLoop_distinct[OF loop] by (simp add: absent_def)
  from insertLoop_log[OF loop] obtain evs where
    evs: "log st' = log st @ evs"
      "\<forall>e \<in> set evs. (\<exists>a b c. e = OpinionsFindOne a b c) \<or> (\<exists>k. e = OpinionsInsertMany k \<and> 0 < k \<and> k \<le> BATCH)"
    by blast
  have b: "\<forall>e \<in> set (new_events st st'). \<forall>k. e = OpinionsInsertMany k \<longrightarrow> k \<le> 40"
    using evs(2) unfolding new_events_append[OF evs(1)] by (auto simp: BATCH_def)
  have keys: "set (map chunk_key docs) \<subseteq> set (map chunk_key (opinions st'))"
    using insertLoop_keys[OF loop] by simp
  from insertLoop_probes[OF loop] obtain pevs where
    pevs: "log st' = log st @ pevs" "probes pevs = map chunk_key (drop 0 docs)" by blast
  have pr: "probes (new_events st st') = map chunk_key docs"
    using pevs(2) unfolding new_events_append[OF pevs(1)] by simp
  have fr: "cases st' = cases st" "control st' = control st"
    using insertLoop_frame[OF loop] by simp_all
  have inv: "sub_batches_distinct docs \<and> distinct (map chunk_key (opinions st)) \<longrightarrow>
        distinct (map chunk_key (opinions st'))"
    using insertLoop_invariant[OF loop] by simp
  from pr n keys ex b fr inv show ?thesis by blast
qed

text \<open>
  The condition on the slices is needed for the invariant: the candidates of a slice are
  all probed before any of them is inserted, so two candidates of one slice with one key
  are both found absent and both stored. \<open>processCluster\<close> builds no such batch (see
  \<open>build_docs_distinct\<close>).
\<close>

lemma insertOpinionChunks_same_key_in_slice:
  "\<not> sub_batches_distinct [example_chunk, example_chunk] \<and>
   fst (insertOpinionChunks [example_chunk, example_chunk] empty_store) = Some 2 \<and>
   opinions (snd (insertOpinionChunks [example_chunk, example_chunk] empty_store)) = [example_chunk, example_chunk]"
  by (simp add: insertOpinionChunks_def insertLoop.simps[of _ 0] insertLoop.simps[of _ 40] BATCH_def Let_def
      opinions_exists_def empty_store_def sub_batches_distinct.simps[of "[example_chunk, example_chunk]"])

text \<open>
  C2. \<open>insertOpinionChunks\<close> probes storage once for each candidate of the batch, in
  order, by its key \<open>(case_id, opinion_id, content_hash)\<close>. What it appends to storage
  are candidates of the batch whose key was not stored, and nothing else; afterwards the
  key of every candidate is stored; and when the keys of the batch are pairwise distinct,
  it appends exactly the candidates whose key was not stored, in order. It returns the
  number of chunks it inserted (\<open>undefined\<close> for the empty batch). No \<open>insertMany\<close>
  carries more than 40 documents. The cases and the checkpoints are untouched.

  Consequently: if no slice of the batch carries a key twice and storage holds at most
  one chunk per key, then storage still holds at most one chunk per key. The batches
  that \<open>processCluster\<close> builds are of this kind, their keys being pairwise distinct
  because the hash covers the index of the chunk, unless the digest function maps two of
  the hashed texts of the opinion to one digest. And running \<open>insertOpinionChunks\<close>
  again, at once or later, on any batch whose keys are keys of this batch (the same
  source data, whatever the vectors), in a storage that has kept its keys, inserts
  nothing.
\<close>

theorem insertOpinionChunks_dedup:
  fixes docs :: "'v OpinionChunk list"
  assumes ins: "insertOpinionChunks docs st = (r, st')"
  shows "probes (new_events st st') = map chunk_key docs \<and>
         (\<exists>new. opinions st' = opinions st @ new \<and> set new \<subseteq> set docs \<and>
                (\<forall>d \<in> set new. \<not> opinions_exists d st) \<and>
                r = (if docs = [] then None else Some (length new))) \<and>
         set (map chunk_key docs) \<subseteq> set (map chunk_key (opinions st')) \<and>
         (distinct (map chunk_key docs) \<longrightarrow>
            opinions st' = opinions st @ filter (\<lambda>d. \<not> opinions_exists d st) docs) \<and>
         (\<forall>e \<in> set (new_events st st'). \<forall>k. e = OpinionsInsertMany k \<longrightarrow> k \<le> 40) \<and>
         cases st' = cases st \<and> control st' = control st \<and>
         (sub_batches_distinct docs \<and> distinct (map chunk_key (opinions st)) \<longrightarrow>
            distinct (map chunk_key (opinions st'))) \<and>
         (\<forall>cfg w case_id sec author opinionId decision_date vectors chunks.
            docs = build_docs cfg w case_id sec author opinionId decision_date vectors chunks \<and>
            inj_on (sha1 w) (hashed_text opinionId ` set (enumerate 0 chunks)) \<longrightarrow>
            sub_batches_distinct docs) \<and>
         (\<forall>(docs2 :: 'v OpinionChunk list) st2.
            set (map chunk_key docs2) \<subseteq> set (map chunk_key docs) \<and>
            set (map chunk_key (opinions st')) \<subseteq> set (map chunk_key (opinions st2)) \<longrightarrow>
            fst (insertOpinionChunks docs2 st2) = (if docs2 = [] then None else Some 0) \<and>
            opinions (snd (insertOpinionChunks docs2 st2)) = opinions st2)"
proof -
  note eff = insertOpinionChunks_effect[OF ins]
  from eff have keys: "set (map chunk_key docs) \<subseteq> set (map chunk_key (opinions st'))" by blast
  have real: "\<forall>cfg w case_id sec author opinionId decision_date vectors chunks.
            docs = build_docs cfg w case_id sec author opinionId decision_date vectors chunks \<and>
            inj_on (sha1 w) (hashed_text opinionId ` set (enumerate 0 chunks)) \<longrightarrow>
            sub_batches_distinct docs"
    using build_docs_distinct distinct_sub_batches by blast
  have rerun: "\<forall>(docs2 :: 'v OpinionChunk list) st2.
            set (map chunk_key docs2) \<subseteq> set (map chunk_key docs) \<and>
            set (map chunk_key (opinions st')) \<subseteq> set (map chunk_key (opinions st2)) \<longrightarrow>
            fst (insertOpinionChunks docs2 st2) = (if docs2 = [] then None else Some 0) \<and>
            opinions (snd (insertOpinionChunks docs2 st2)) = opinions st2"
  proof (intro allI impI)
    fix docs2 :: "'v OpinionChunk list" and st2 :: "'v store"
    assume "set (map chunk_key docs2) \<subseteq> set (map chunk_key docs) \<and>
            set (map chunk_key (opinions st')) \<subseteq> set (map chunk_key (opinions st2))"
    with keys have "set (map chunk_key docs2) \<subseteq> set (map chunk_key (opinions st2))" by blast
    then show "fst (insertOpinionChunks docs2 st2) = (if docs2 = [] then None else Some 0) \<and>
            opinions (snd (insertOpinionChunks docs2 st2)) = opinions st2"
      by (rule rerun_inserts_nothing)
  qed
  from eff real rerun show ?thesis by simp
qed

lemma repeating_batch_eval:
  "\<not> distinct (map chunk_key repeating_batch)"
  "sub_batches_distinct repeating_batch"
  "fst (insertOpinionChunks repeating_batch empty_store) = Some 40"
  "opinions (snd (insertOpinionChunks repeating_batch empty_store)) = map numbered_chunk [0..<40]"
  by code_simp+

lemma revectored_keys: "map chunk_key revectored_batch = map chunk_key repeating_batch"
  by (simp add: revectored_batch_def chunk_key_def comp_def)

theorem insertOpinionChunks_dedup_witness:
  "\<not> distinct (map chunk_key repeating_batch) \<and>
   sub_batches_distinct repeating_batch \<and>
   fst (insertOpinionChunks repeating_batch empty_store) = Some 40 \<and>
   opinions (snd (insertOpinionChunks repeating_batch empty_store)) = map numbered_chunk [0..<40] \<and>
   distinct (map chunk_key (opinions (snd (insertOpinionChunks repeating_batch empty_store)))) \<and>
   revectored_batch \<noteq> repeating_batch \<and>
   fst (insertOpinionChunks revectored_batch (snd (insertOpinionChunks repeating_batch empty_store))) = Some 0 \<and>
   opinions (snd (insertOpinionChunks revectored_batch (snd (insertOpinionChunks repeating_batch empty_store)))) =
     map numbered_chunk [0..<40] \<and>
   map oc_text twice_held = [''Held.'', ''Held.''] \<and>
   sub_batches_distinct twice_held"
proof -
  have run: "insertOpinionChunks repeating_batch empty_store =
      (fst (insertOpinionChunks repeating_batch empty_store),
       snd (insertOpinionChunks repeating_batch empty_store))" by simp
  have i: "distinct (map chunk_key (opinions empty_store))" by (simp add: empty_store_def)
  have ne: "revectored_batch \<noteq> []" "revectored_batch \<noteq> repeating_batch" by code_simp+
  have run2: "insertOpinionChunks twice_held empty_store =
      (fst (insertOpinionChunks twice_held empty_store),
       snd (insertOpinionChunks twice_held empty_store))" by simp
  have inj: "inj_on (sha1 example_env) (hashed_text 7 ` set (enumerate 0 [''Held.'', ''Held.'']))"
    by (simp add: example_env_def)
  have tx: "map oc_text twice_held = [''Held.'', ''Held.'']" by code_simp
  note t = insertOpinionChunks_dedup[OF run]
  from t have inv: "sub_batches_distinct repeating_batch \<and> distinct (map chunk_key (opinions empty_store)) \<longrightarrow>
      distinct (map chunk_key (opinions (snd (insertOpinionChunks repeating_batch empty_store))))"
    by (elim conjE)
  from t have rr: "\<forall>(docs2 :: unit OpinionChunk list) st2.
      set (map chunk_key docs2) \<subseteq> set (map chunk_key repeating_batch) \<and>
      set (map chunk_key (opinions (snd (insertOpinionChunks repeating_batch empty_store))))
        \<subseteq> set (map chunk_key (opinions st2)) \<longrightarrow>
      fst (insertOpinionChunks docs2 st2) = (if docs2 = [] then None else Some 0) \<and>
      opinions (snd (insertOpinionChunks docs2 st2)) = opinions st2"
    by (elim conjE)
  from inv repeating_batch_eval(2) i
  have a: "distinct (map chunk_key (opinions (snd (insertOpinionChunks repeating_batch empty_store))))"
    by blast
  from rr[rule_format, of revectored_batch "snd (insertOpinionChunks repeating_batch empty_store)"]
    revectored_keys ne(1) repeating_batch_eval(4)
  have b: "fst (insertOpinionChunks revectored_batch (snd (insertOpinionChunks repeating_batch empty_store))) = Some 0"
    and c: "opinions (snd (insertOpinionChunks revectored_batch (snd (insertOpinionChunks repeating_batch empty_store)))) =
     map numbered_chunk [0..<40]"
    by simp_all
  from insertOpinionChunks_dedup[OF run2] inj have d: "sub_batches_distinct twice_held"
    unfolding twice_held_def by blast
  from a b c d tx ne repeating_batch_eval show ?thesis by simp
qed

section \<open>The example run, step by step\<close>

lemma processOpinions_Cons:
  "processOpinions cfg w cid dd (op # ops) tot st =
     (if extractOpinionText w op = [] \<or> opinion_chunks w op = []
      then processOpinions cfg w cid dd ops tot st
      else case embedBatch w (opinion_chunks w op) st of
             (Returned vectors, st1) \<Rightarrow>
               (case insertOpinionChunks (opinion_docs cfg w cid dd op vectors) st1 of
                  (inserted, st2) \<Rightarrow>
                    processOpinions cfg w cid dd ops
                      (tot + (case inserted of Some n \<Rightarrow> n | None \<Rightarrow> 0)) (sleep 150 st2))
           | (Thrown e, st1) \<Rightarrow> (Thrown e, st1)
           | (Diverges, st1) \<Rightarrow> (Diverges, st1))"
  by (simp add: Let_def opinion_chunks_def opinion_docs_def split: prod.splits outcome.splits)

lemma insertOpinionChunks_single:
  "insertOpinionChunks [d] st =
     (if opinions_exists d st then (Some 0, emit (probe_of d) st)
      else (Some 1, insertMany [d] (emit (probe_of d) st)))"
  by (simp add: insertOpinionChunks_def insertLoop_step insertLoop_stop BATCH_def after_slice_def
        absent_def Let_def emit_def)

lemma cases_upsertCase:
  "cases (upsertCase doc st) =
     (cases st)(cd_case_id doc \<mapsto> (case cases st (cd_case_id doc) of None \<Rightarrow> doc | Some old \<Rightarrow> apply_set doc old))"
  by (simp add: upsertCase_def)

lemma ex_cl_id: "cl_id example_cluster = Suc 0" by code_simp
lemma ex_guard: "\<not> date_guard_skips example_config example_cluster" by code_simp
lemma ex_filter: "\<not> page_filter_skips example_config example_cluster" by code_simp
lemma ex_filter_late: "page_filter_skips example_config late_cluster" by code_simp
lemma ex_dd: "cd_decision_date (build_caseDoc example_config example_cluster) = Some ''2010-06-01''" by code_simp
lemma ex_url: "opinionsUrl example_config (Suc 0) = example_url" by code_simp
lemma ex_url_ne: "example_url \<noteq> []" by (simp add: example_url_def)
lemma ex_text_a: "extractOpinionText example_env opinion_a \<noteq> []" by code_simp
lemma ex_text_b: "extractOpinionText example_env opinion_b \<noteq> []" by code_simp
lemma ex_chunks_a: "opinion_chunks example_env opinion_a = [''Held.'']" by code_simp
lemma ex_chunks_b: "opinion_chunks example_env opinion_b = [''I dissent.'']" by code_simp
lemma ex_docs_a: "opinion_docs example_config example_env ''cl:1'' (Some ''2010-06-01'') opinion_a [()] = [chunk_a]" by code_simp
lemma ex_docs_b: "opinion_docs example_config example_env ''cl:1'' (Some ''2010-06-01'') opinion_b [()] = [chunk_b]" by code_simp
lemma ex_inputs_a: "filter (\<lambda>t. t \<noteq> []) (map trim [''Held.'']) = [''Held.'']" by code_simp
lemma ex_inputs_b: "filter (\<lambda>t. t \<noteq> []) (map trim [''I dissent.'']) = [''I dissent.'']" by code_simp
lemma ex_produced: "produced_count example_env [opinion_a, opinion_b] = 2" by code_simp

lemma fetchOpinionsLoop_done: "fetchOpinionsLoop fuel w cid [] results st = (Returned results, st)"
  by (simp add: fetchOpinionsLoop.simps)

lemma ex_fetch:
  "fetchOpinionsForCluster (Suc k) example_config example_env (Suc 0) st =
     (Returned [opinion_a, opinion_b], emit (HttpRequest example_url) st)"
  unfolding fetchOpinionsForCluster_def ex_url
  by (simp add: fetchOpinionsLoop.simps[of "Suc k"] fetchOpinionsLoop_done ex_url_ne
        fetchJsonWithRetry.simps[of _ _ _ _ "Suc 0"] Let_def example_env_def or_empty_def page_items_def)

lemma ex_embed_a:
  "embedBatch example_env [''Held.''] st =
     (if length (log st) = 7 then (Thrown (EmbeddingError ''rate limit''), emit (EmbeddingsCreate 1) st)
      else (Returned [()], emit (EmbeddingsCreate 1) st))"
  unfolding embedBatch_def Let_def ex_inputs_a by (simp add: example_env_def)

lemma ex_embed_b:
  "embedBatch example_env [''I dissent.''] st =
     (if length (log st) = 7 then (Thrown (EmbeddingError ''rate limit''), emit (EmbeddingsCreate 1) st)
      else (Returned [()], emit (EmbeddingsCreate 1) st))"
  unfolding embedBatch_def Let_def ex_inputs_b by (simp add: example_env_def)

lemma empty_store_simps [simp]:
  "log empty_store = []" "opinions empty_store = []" "cases empty_store = Map.empty"
  "control empty_store = Map.empty"
  by (simp_all add: empty_store_def)

lemma ex_keys: "chunk_key chunk_a \<noteq> chunk_key chunk_b" "chunk_key chunk_b \<noteq> chunk_key chunk_a"
  by (simp_all add: chunk_key_def chunk_a_def chunk_b_def)

lemmas ex_run = ex_fetch processOpinions_Cons ex_text_a ex_text_b ex_chunks_a ex_chunks_b
  ex_embed_a ex_embed_b ex_docs_a ex_docs_b insertOpinionChunks_single

lemma first_attempt_eq:
  "processCluster 1 example_config example_env example_cluster empty_store =
     (Thrown (EmbeddingError ''rate limit''), after_first)"
proof -
  have ni: "\<not> already_indexed empty_store example_cluster"
    by (simp add: already_indexed_def)
  show ?thesis
    unfolding processCluster_run[OF ni ex_guard] ex_cl_id ex_case_id ex_dd after_first_def
    by (simp add: ex_run opinions_exists_def del: processOpinions.simps(2))
qed

lemma not_indexed_after_first: "\<not> already_indexed after_first example_cluster"
  by (simp add: already_indexed_def ex_case_id after_first_def metadata_written_def cases_upsertCase
        build_caseDoc_def)

lemma second_attempt_eq:
  "processCluster 1 example_config example_env example_cluster after_first =
     (Returned (), after_second)"
  unfolding processCluster_run[OF not_indexed_after_first ex_guard] ex_cl_id ex_case_id ex_dd after_second_def
  apply (simp add: ex_run del: processOpinions.simps(2))
  apply (simp add: after_first_def opinions_exists_def ex_keys)
  done

lemma second_count:
  "map_option cd_indexed (cases after_second ''cl:1'') = Some (Some True)"
  "map_option cd_opinions_count (cases after_second ''cl:1'') = Some (Some 1)"
  "opinions after_second = [chunk_a, chunk_b]"
  "opinions after_first = [chunk_a]"
  by (simp_all add: after_second_def after_first_def cases_upsertCase indexed_update_def apply_set_def
        set_field_def metadata_written_def ex_case_id build_caseDoc_def split: option.splits)

section \<open>Claim C7: marking a record as indexed\<close>

text \<open>
  C7, as stated, fails when some chunks of the record are already stored. Here a first
  attempt at a record with two opinions stores the chunk of the first opinion and then
  fails in the embedding call for the second, leaving \<open>indexed = false\<close>. The second
  attempt completes both opinions: the record is split into two chunks, both are in
  storage afterwards, and the case is marked \<open>indexed = true\<close> with
  \<open>opinions_count = 1\<close>, the one chunk that this attempt inserted.
\<close>

theorem opinions_count_misses_stored_chunks:
  "processCluster 1 example_config example_env example_cluster empty_store =
     (Thrown (EmbeddingError ''rate limit''), after_first) \<and>
   processCluster 1 example_config example_env example_cluster after_first =
     (Returned (), after_second) \<and>
   map_option cd_indexed (cases after_second ''cl:1'') = Some (Some True) \<and>
   map_option cd_opinions_count (cases after_second ''cl:1'') = Some (Some 1) \<and>
   produced_count example_env [opinion_a, opinion_b] = 2 \<and>
   opinions after_second = [chunk_a, chunk_b]"
  using first_attempt_eq second_attempt_eq second_count ex_produced by simp

text \<open>
  C7, amended. When \<open>processCluster\<close> completes a record that it did not skip, the stored
  case has \<open>indexed = true\<close> and \<open>opinions_count\<close> equal to the number of chunks that
  this call inserted into storage; when the record is found to have no sub-documents,
  it has \<open>indexed = true\<close> and \<open>opinions_count = 0\<close>.
\<close>

theorem processCluster_marks_indexed:
  assumes run: "processCluster fuel cfg w c st = (Returned (), st')"
    and ni: "\<not> already_indexed st c" and ng: "\<not> date_guard_skips cfg c"
  shows "(\<exists>d. cases st' (case_id_of c) = Some d \<and> cd_indexed d = Some True \<and>
               cd_opinions_count d = Some (length (opinions st') - length (opinions st))) \<and>
         (fst (fetchOpinionsForCluster fuel cfg w (cl_id c) (metadata_written cfg c st)) = Returned [] \<longrightarrow>
            (\<exists>d. cases st' (case_id_of c) = Some d \<and> cd_indexed d = Some True \<and>
                 cd_opinions_count d = Some 0))"
proof -
  have 1: "\<exists>d. cases st' (case_id_of c) = Some d \<and> cd_indexed d = Some True \<and>
               cd_opinions_count d = Some (length (opinions st') - length (opinions st))"
    by (rule processCluster_marks[OF run ni ng])
  have 2: "\<exists>d. cases st' (case_id_of c) = Some d \<and> cd_indexed d = Some True \<and>
                 cd_opinions_count d = Some 0"
    if e: "fst (fetchOpinionsForCluster fuel cfg w (cl_id c) (metadata_written cfg c st)) = Returned []"
  proof -
    obtain st3 where f: "fetchOpinionsForCluster fuel cfg w (cl_id c) (metadata_written cfg c st) = (Returned [], st3)"
      using e by (cases "fetchOpinionsForCluster fuel cfg w (cl_id c) (metadata_written cfg c st)") simp
    from run have "st' = upsertCase (indexed_update (case_id_of c) 0) st3"
      by (simp add: processCluster_run[OF ni ng] f)
    with upsert_indexed[of "case_id_of c" 0 st3] show ?thesis by simp
  qed
  from 1 2 show ?thesis by blast
qed

theorem processCluster_marks_indexed_witness:
  "processCluster 1 example_config example_env example_cluster after_first = (Returned (), after_second) \<and>
   \<not> already_indexed after_first example_cluster \<and>
   \<not> date_guard_skips example_config example_cluster \<and>
   (\<exists>d. cases after_second ''cl:1'' = Some d \<and> cd_indexed d = Some True \<and>
        cd_opinions_count d = Some 1)"
proof -
  from processCluster_marks_indexed[OF second_attempt_eq not_indexed_after_first ex_guard]
  have "\<exists>d. cases after_second ''cl:1'' = Some d \<and> cd_indexed d = Some True \<and>
        cd_opinions_count d = Some 1"
    by (simp add: ex_case_id second_count)
  with second_attempt_eq not_indexed_after_first ex_guard show ?thesis by simp
qed

section \<open>Claim C5: the checkpoint follows the page\<close>

lemma clustersLoop_log:
  "clustersLoop fuel cfg w cs n st = (r, st') \<Longrightarrow>
     control st' = control st \<and> (\<forall>e. r \<noteq> Thrown e) \<and>
     (\<exists>evs. log st' = log st @ evs \<and> checkpoint_writes evs = [] \<and>
        (\<forall>n'. r = Returned n' \<longrightarrow>
           attempts evs = map case_id_of (filter (\<lambda>c. \<not> page_filter_skips cfg c) cs)))"
proof (induction cs arbitrary: n st)
  case Nil
  then have "st' = st" "r = Returned n" by simp_all
  then show ?case by (intro conjI exI[of _ "[]"]) simp_all
next
  case (Cons c cs)
  show ?case
  proof (cases "page_filter_skips cfg c")
    case True
    with Cons.prems have "clustersLoop fuel cfg w cs n st = (r, st')" by simp
    from Cons.IH[OF this] True show ?thesis by simp
  next
    case False
    obtain pr st1 where p: "processCluster fuel cfg w c st = (pr, st1)"
      by (cases "processCluster fuel cfg w c st")
    from processCluster_log[OF p] obtain ev1 where
      c1: "control st1 = control st" and l1: "log st1 = log st @ CasesFindOne (case_id_of c) # ev1"
      and q1: "attempts ev1 = []" "checkpoint_writes ev1 = []" by blast
    have step: ?thesis
      if rec: "clustersLoop fuel cfg w cs (n + 1) st2 = (r, st')"
        and c2: "control st2 = control st" and l2: "log st2 = log st @ CasesFindOne (case_id_of c) # ev2"
        and q2: "attempts ev2 = []" "checkpoint_writes ev2 = []" for st2 ev2
    proof -
      from Cons.IH[OF rec] obtain evs where
        ih: "control st' = control st2" "\<forall>e. r \<noteq> Thrown e" "log st' = log st2 @ evs"
          "checkpoint_writes evs = []"
          "\<forall>n'. r = Returned n' \<longrightarrow>
             attempts evs = map case_id_of (filter (\<lambda>c. \<not> page_filter_skips cfg c) cs)"
        by blast
      let ?evs = "CasesFindOne (case_id_of c) # ev2 @ evs"
      have "log st' = log st @ ?evs" using ih(3) l2 by simp
      moreover have "checkpoint_writes ?evs = []" using q2 ih(4) by simp
      moreover have "\<forall>n'. r = Returned n' \<longrightarrow>
           attempts ?evs = map case_id_of (filter (\<lambda>c. \<not> page_filter_skips cfg c) (c # cs))"
        using ih(5) q2 False by simp
      ultimately show ?thesis using ih(1,2) c2
        by (intro conjI exI[of _ ?evs]) simp_all
    qed
    show ?thesis
    proof (cases pr)
      case (Returned u)
      with Cons.prems False p have "clustersLoop fuel cfg w cs (n + 1) st1 = (r, st')" by simp
      from step[OF this c1 l1 q1] show ?thesis .
    next
      case (Thrown e)
      let ?st2 = "emit (ConsoleError (cluster_label c)) st1"
      from Thrown Cons.prems False p have rec: "clustersLoop fuel cfg w cs (n + 1) ?st2 = (r, st')" by simp
      have "log ?st2 = log st @ CasesFindOne (case_id_of c) # (ev1 @ [ConsoleError (cluster_label c)])"
        using l1 by simp
      from step[OF rec _ this] c1 q1 show ?thesis by simp
    next
      case Diverges
      with Cons.prems False p have "st' = st1" "r = Diverges" by simp_all
      with c1 l1 q1 show ?thesis
        by (intro conjI exI[of _ "CasesFindOne (case_id_of c) # ev1"]) simp_all
    qed
  qed
qed

lemma startUrl_resume:
  "RESUME cfg \<Longrightarrow> control st (JOB_ID cfg) = Some cp \<Longrightarrow> cp_next_url cp = Some u \<Longrightarrow> u \<noteq> [] \<Longrightarrow>
     fst (startUrl cfg st) = u"
  by (cases u) (simp_all add: startUrl_def readCheckpoint_def Let_def)

lemma control_writeCheckpoint:
  "\<exists>cp. control (writeCheckpoint cfg w nextUrl st) (JOB_ID cfg) = Some cp \<and>
        cp_next_url cp = Some (or_empty nextUrl)"
  by (simp add: writeCheckpoint_def Let_def)

text \<open>What one iteration of the page loop does to the log and to the checkpoints.\<close>

lemma pageIteration_page:
  assumes run: "pageIteration fuel cfg w url n st = (r, st')"
  shows "(\<forall>nextUrl n'. r = Returned (nextUrl, n') \<longrightarrow>
          (\<exists>json st1 st2 evs.
             fetchJsonWithRetry (http_clusters w) (random_jitter w) url ''fetch clusters page'' 1 st
               = (Inr json, st1) \<and>
             nextUrl = or_empty (pg_next json) \<and>
             clustersLoop fuel cfg w (page_items json) n st1 = (Returned n', st2) \<and>
             log st2 = log st1 @ evs \<and>
             attempts evs = map case_id_of (filter (\<lambda>c. \<not> page_filter_skips cfg c) (page_items json)) \<and>
             checkpoint_writes evs = [] \<and>
             (\<forall>k. control (snd (clustersLoop fuel cfg w (take k (page_items json)) n st1)) = control st) \<and>
             log st' = log st2 @ ControlUpdateOne (JOB_ID cfg) nextUrl #
                         (if nextUrl \<noteq> [] then [Sleep 250] else []) \<and>
             checkpoint_writes (new_events st st') = [(JOB_ID cfg, nextUrl)] \<and>
             (\<exists>cp. control st' (JOB_ID cfg) = Some cp \<and> cp_next_url cp = Some nextUrl) \<and>
             (\<forall>st'' :: 'a store. control st'' = control st' \<and> RESUME cfg \<and> nextUrl \<noteq> [] \<longrightarrow>
                fst (startUrl cfg st'') = nextUrl))) \<and>
         ((\<forall>x. r \<noteq> Returned x) \<longrightarrow>
            control st' = control st \<and> checkpoint_writes (new_events st st') = [])"
proof -
  let ?p = "''fetch clusters page''"
  obtain fr st1 where f: "fetchJsonWithRetry (http_clusters w) (random_jitter w) url ?p 1 st = (fr, st1)"
    by (cases "fetchJsonWithRetry (http_clusters w) (random_jitter w) url ?p 1 st")
  from fetch_run[OF f] obtain js where
    st1: "st1 = st\<lparr>log := log st @ run_events url 1 js\<rparr>" by blast
  have c1: "control st1 = control st" and l1: "log st1 = log st @ run_events url 1 js"
    by (simp_all add: st1)
  show ?thesis
  proof (cases fr)
    case (Inl e)
    with run f have "r = Thrown (FetchError e)" "st' = st1" by (simp_all add: pageIteration_def)
    then show ?thesis using c1 l1 by (simp add: new_events_def)
  next
    case (Inr json)
    let ?items = "page_items json"
    obtain cr st2 where cl: "clustersLoop fuel cfg w ?items n st1 = (cr, st2)"
      by (cases "clustersLoop fuel cfg w ?items n st1")
    from clustersLoop_log[OF cl] obtain evs where
      c2: "control st2 = control st1" and nt: "\<forall>e. cr \<noteq> Thrown e"
      and l2: "log st2 = log st1 @ evs" and q2: "checkpoint_writes evs = []"
      and a2: "\<forall>n'. cr = Returned n' \<longrightarrow>
           attempts evs = map case_id_of (filter (\<lambda>c. \<not> page_filter_skips cfg c) ?items)"
      by blast
    have mid: "control (snd (clustersLoop fuel cfg w (take k ?items) n st1)) = control st" for k
    proof -
      obtain rk sk where k: "clustersLoop fuel cfg w (take k ?items) n st1 = (rk, sk)"
        by (cases "clustersLoop fuel cfg w (take k ?items) n st1")
      from clustersLoop_log[OF k] have "control sk = control st1" by blast
      with k c1 show ?thesis by simp
    qed
    from run f Inr cl have run': "(case cr of
             Returned totalClusters' \<Rightarrow>
               (let nextUrl = or_empty (pg_next json);
                    st3 = writeCheckpoint cfg w (Some nextUrl) st2;
                    st4 = (if nextUrl \<noteq> [] then sleep 250 st3 else st3)
                in (Returned (nextUrl, totalClusters'), st4))
           | Thrown e \<Rightarrow> (Thrown e, st2)
           | Diverges \<Rightarrow> (Diverges, st2)) = (r, st')"
      by (simp add: pageIteration_def page_items_def)
    show ?thesis
    proof (cases cr)
      case (Thrown e)
      with nt show ?thesis by simp
    next
      case Diverges
      with run' have "r = Diverges" "st' = st2" by simp_all
      then show ?thesis using c1 c2 l1 l2 q2 by (simp add: new_events_def)
    next
      case (Returned n2)
      let ?next = "or_empty (pg_next json)"
      let ?st3 = "writeCheckpoint cfg w (Some ?next) st2"
      from Returned run' have r: "r = Returned (?next, n2)"
        and st': "st' = (if ?next \<noteq> [] then sleep 250 ?st3 else ?st3)"
        by (simp_all add: Let_def)
      have oe: "or_empty (Some x) = x" for x :: string by (simp add: or_empty_def)
      have l': "log st' = log st2 @ ControlUpdateOne (JOB_ID cfg) ?next #
                         (if ?next \<noteq> [] then [Sleep 250] else [])"
        by (simp add: st' oe)
      have cw: "checkpoint_writes (new_events st st') = [(JOB_ID cfg, ?next)]"
        unfolding new_events_def l' l2 l1 using q2 by simp
      have ctl: "control st' = control ?st3" by (simp add: st')
      from control_writeCheckpoint[of cfg w "Some ?next" st2] obtain cp where
        cp: "control st' (JOB_ID cfg) = Some cp" "cp_next_url cp = Some ?next"
        unfolding ctl oe by blast
      have restart: "\<forall>st'' :: 'a store. control st'' = control st' \<and> RESUME cfg \<and> ?next \<noteq> [] \<longrightarrow>
                fst (startUrl cfg st'') = ?next"
        using cp startUrl_resume by metis
      from a2 Returned have att:
        "attempts evs = map case_id_of (filter (\<lambda>c. \<not> page_filter_skips cfg c) ?items)" by simp
      have f': "fetchJsonWithRetry (http_clusters w) (random_jitter w) url ?p 1 st = (Inr json, st1)"
        using f Inr by simp
      have cl': "clustersLoop fuel cfg w (page_items json) n st1 = (Returned n2, st2)"
        using cl Returned by simp
      have cpx: "\<exists>cp. control st' (JOB_ID cfg) = Some cp \<and> cp_next_url cp = Some ?next"
        using cp by blast
      have "\<exists>json st1 st2 evs.
             fetchJsonWithRetry (http_clusters w) (random_jitter w) url ?p 1 st = (Inr json, st1) \<and>
             ?next = or_empty (pg_next json) \<and>
             clustersLoop fuel cfg w (page_items json) n st1 = (Returned n2, st2) \<and>
             log st2 = log st1 @ evs \<and>
             attempts evs = map case_id_of (filter (\<lambda>c. \<not> page_filter_skips cfg c) (page_items json)) \<and>
             checkpoint_writes evs = [] \<and>
             (\<forall>k. control (snd (clustersLoop fuel cfg w (take k (page_items json)) n st1)) = control st) \<and>
             log st' = log st2 @ ControlUpdateOne (JOB_ID cfg) ?next #
                         (if ?next \<noteq> [] then [Sleep 250] else []) \<and>
             checkpoint_writes (new_events st st') = [(JOB_ID cfg, ?next)] \<and>
             (\<exists>cp. control st' (JOB_ID cfg) = Some cp \<and> cp_next_url cp = Some ?next) \<and>
             (\<forall>st'' :: 'a store. control st'' = control st' \<and> RESUME cfg \<and> ?next \<noteq> [] \<longrightarrow>
                fst (startUrl cfg st'') = ?next)"
        apply (rule exI[of _ json], rule exI[of _ st1], rule exI[of _ st2], rule exI[of _ evs])
        apply (intro conjI allI)
                  apply (rule f')
                 apply (rule refl)
                apply (rule cl')
               apply (rule l2)
              apply (rule att)
             apply (rule q2)
            apply (rule mid)
           apply (rule l')
          apply (rule cw)
         apply (rule cpx)
        using restart apply blast
        done
      then show ?thesis using r by simp
    qed
  qed
qed

lemma pagesLoop_step:
  "url \<noteq> [] \<Longrightarrow> pageIteration fuel cfg w url n st = (r, st') \<Longrightarrow>
     pagesLoop (Suc p) fuel cfg w url n st =
       (case r of
          Returned (nextUrl, n') \<Rightarrow> pagesLoop p fuel cfg w nextUrl n' st'
        | Thrown e \<Rightarrow> (Thrown e, st')
        | Diverges \<Rightarrow> (Diverges, st'))"
  by (simp add: pagesLoop.simps[of "Suc p"] split: outcome.splits)

lemma startUrl_control:
  "control s = control t \<Longrightarrow> fst (startUrl cfg s) = fst (startUrl cfg t)"
  by (simp add: startUrl_def readCheckpoint_def Let_def split: option.splits list.splits)

lemma control_startUrl: "control (snd (startUrl cfg s)) = control s"
  by (simp add: startUrl_def readCheckpoint_def Let_def split: option.splits list.splits)

lemma loadAllCases_start:
  "loadAllCases p fuel cfg w s = pagesLoop p fuel cfg w (fst (startUrl cfg s)) 0 (snd (startUrl cfg s))"
  by (simp add: loadAllCases_def split: prod.splits)

lemma loadAllCases_resume:
  "RESUME cfg \<Longrightarrow> control st (JOB_ID cfg) = Some cp \<Longrightarrow> cp_next_url cp = Some u \<Longrightarrow> u \<noteq> [] \<Longrightarrow>
     loadAllCases p fuel cfg w st = pagesLoop p fuel cfg w u 0 (emit (ControlFindOne (JOB_ID cfg)) st)"
  by (cases u) (simp_all add: loadAllCases_def startUrl_def readCheckpoint_def Let_def)

lemma control_mid_page:
  assumes "fetchJsonWithRetry (http_clusters w) (random_jitter w) url purpose a st = (Inr json, st1)"
  shows "control st1 = control st \<and>
         control (snd (clustersLoop fuel cfg w cs m st1)) = control st"
proof -
  from fetch_run[OF assms] obtain js where "st1 = st\<lparr>log := log st @ run_events url a js\<rparr>" by blast
  then have c1: "control st1 = control st" by simp
  obtain rk sk where k: "clustersLoop fuel cfg w cs m st1 = (rk, sk)"
    by (cases "clustersLoop fuel cfg w cs m st1")
  from clustersLoop_log[OF k] have "control sk = control st1" by blast
  with k c1 show ?thesis by simp
qed

text \<open>
  C5. Take one iteration of the page loop. If it comes back with the next cursor, then
  the page was fetched; every record of the page that the date filter let through was
  attempted, in order, each attempt opening with the look-up of its case; no checkpoint
  was written while the records were gone through, and after any number of them the
  stored checkpoints were still those of the start of the iteration; the write of the
  checkpoint with the page's next cursor is the first event after the last record, and
  the only checkpoint write of the iteration; and a restart that resumes from the
  stored checkpoint starts at that cursor.

  The page loop then goes on with the page at that cursor, in the state in which that
  cursor is the stored checkpoint. A run of \<open>loadAllCases\<close> with \<open>RESUME\<close> on that
  starts from any state with these checkpoints reads the checkpoint and enters the page
  loop at that cursor. While the page at that cursor is fetched and any number of its
  records are gone through, the checkpoints stay as they are, so a restart from there
  starts at that cursor: at the page that was in progress, not at an earlier one.

  If the iteration does not come back with a cursor (the page could not be fetched, or a
  record never returned), it has written no checkpoint, and the page loop ends there.

  For the first page of a run: \<open>loadAllCases\<close> enters the page loop at the URL that
  \<open>startUrl\<close> gives, in a state from which \<open>startUrl\<close> gives that URL again, and after
  any number of records of an iteration \<open>startUrl\<close> gives what it gave at the start of
  the iteration.
\<close>

theorem checkpoint_written_after_page:
  fixes st :: "'v store"
  assumes run: "pageIteration fuel cfg w url n st = (r, st')"
  shows "(\<forall>nextUrl n'. r = Returned (nextUrl, n') \<longrightarrow>
          (\<exists>json st1 st2 evs.
             fetchJsonWithRetry (http_clusters w) (random_jitter w) url ''fetch clusters page'' 1 st
               = (Inr json, st1) \<and>
             nextUrl = or_empty (pg_next json) \<and>
             clustersLoop fuel cfg w (page_items json) n st1 = (Returned n', st2) \<and>
             log st2 = log st1 @ evs \<and>
             attempts evs = map case_id_of (filter (\<lambda>c. \<not> page_filter_skips cfg c) (page_items json)) \<and>
             checkpoint_writes evs = [] \<and>
             (\<forall>k. control (snd (clustersLoop fuel cfg w (take k (page_items json)) n st1)) = control st) \<and>
             log st' = log st2 @ ControlUpdateOne (JOB_ID cfg) nextUrl #
                         (if nextUrl \<noteq> [] then [Sleep 250] else []) \<and>
             checkpoint_writes (new_events st st') = [(JOB_ID cfg, nextUrl)] \<and>
             (\<exists>cp. control st' (JOB_ID cfg) = Some cp \<and> cp_next_url cp = Some nextUrl) \<and>
             (\<forall>st'' :: 'v store. control st'' = control st' \<and> RESUME cfg \<and> nextUrl \<noteq> [] \<longrightarrow>
                fst (startUrl cfg st'') = nextUrl)) \<and>
          (\<forall>p. url \<noteq> [] \<longrightarrow>
             pagesLoop (Suc p) fuel cfg w url n st = pagesLoop p fuel cfg w nextUrl n' st') \<and>
          (\<forall>(st'' :: 'v store) p. control st'' = control st' \<and> RESUME cfg \<and> nextUrl \<noteq> [] \<longrightarrow>
             loadAllCases p fuel cfg w st'' =
               pagesLoop p fuel cfg w nextUrl 0 (emit (ControlFindOne (JOB_ID cfg)) st'')) \<and>
          (\<forall>json2 s1 k m.
             fetchJsonWithRetry (http_clusters w) (random_jitter w) nextUrl ''fetch clusters page'' 1 st'
               = (Inr json2, s1) \<and> RESUME cfg \<and> nextUrl \<noteq> [] \<longrightarrow>
             control (snd (clustersLoop fuel cfg w (take k (page_items json2)) m s1)) = control st' \<and>
             fst (startUrl cfg (snd (clustersLoop fuel cfg w (take k (page_items json2)) m s1))) = nextUrl)) \<and>
         ((\<forall>x. r \<noteq> Returned x) \<longrightarrow>
            control st' = control st \<and> checkpoint_writes (new_events st st') = []) \<and>
         (\<forall>p. url \<noteq> [] \<longrightarrow>
            (\<forall>e. r = Thrown e \<longrightarrow> pagesLoop (Suc p) fuel cfg w url n st = (Thrown e, st')) \<and>
            (r = Diverges \<longrightarrow> pagesLoop (Suc p) fuel cfg w url n st = (Diverges, st'))) \<and>
         (\<forall>json st1 k.
            fetchJsonWithRetry (http_clusters w) (random_jitter w) url ''fetch clusters page'' 1 st
              = (Inr json, st1) \<longrightarrow>
            fst (startUrl cfg (snd (clustersLoop fuel cfg w (take k (page_items json)) n st1))) =
              fst (startUrl cfg st)) \<and>
         (\<forall>(s0 :: 'v store) p.
            loadAllCases p fuel cfg w s0 =
              pagesLoop p fuel cfg w (fst (startUrl cfg s0)) 0 (snd (startUrl cfg s0)) \<and>
            fst (startUrl cfg (snd (startUrl cfg s0))) = fst (startUrl cfg s0))"
proof -
  note page = pageIteration_page[OF run]
  have stop: "\<forall>p. url \<noteq> [] \<longrightarrow>
            (\<forall>e. r = Thrown e \<longrightarrow> pagesLoop (Suc p) fuel cfg w url n st = (Thrown e, st')) \<and>
            (r = Diverges \<longrightarrow> pagesLoop (Suc p) fuel cfg w url n st = (Diverges, st'))"
    using pagesLoop_step[OF _ run] by simp
  have within: "\<forall>json st1 k.
            fetchJsonWithRetry (http_clusters w) (random_jitter w) url ''fetch clusters page'' 1 st
              = (Inr json, st1) \<longrightarrow>
            fst (startUrl cfg (snd (clustersLoop fuel cfg w (take k (page_items json)) n st1))) =
              fst (startUrl cfg st)"
    using control_mid_page startUrl_control by blast
  have start: "\<forall>(s0 :: 'v store) p.
            loadAllCases p fuel cfg w s0 =
              pagesLoop p fuel cfg w (fst (startUrl cfg s0)) 0 (snd (startUrl cfg s0)) \<and>
            fst (startUrl cfg (snd (startUrl cfg s0))) = fst (startUrl cfg s0)"
    using loadAllCases_start startUrl_control[OF control_startUrl] by blast
  have ret: "(\<forall>p. url \<noteq> [] \<longrightarrow>
             pagesLoop (Suc p) fuel cfg w url n st = pagesLoop p fuel cfg w nextUrl n' st') \<and>
          (\<forall>(st'' :: 'v store) p. control st'' = control st' \<and> RESUME cfg \<and> nextUrl \<noteq> [] \<longrightarrow>
             loadAllCases p fuel cfg w st'' =
               pagesLoop p fuel cfg w nextUrl 0 (emit (ControlFindOne (JOB_ID cfg)) st'')) \<and>
          (\<forall>json2 s1 k m.
             fetchJsonWithRetry (http_clusters w) (random_jitter w) nextUrl ''fetch clusters page'' 1 st'
               = (Inr json2, s1) \<and> RESUME cfg \<and> nextUrl \<noteq> [] \<longrightarrow>
             control (snd (clustersLoop fuel cfg w (take k (page_items json2)) m s1)) = control st' \<and>
             fst (startUrl cfg (snd (clustersLoop fuel cfg w (take k (page_items json2)) m s1))) = nextUrl)"
    if r: "r = Returned (nextUrl, n')" for nextUrl n'
  proof -
    from page r obtain cp where
      cp: "control st' (JOB_ID cfg) = Some cp" "cp_next_url cp = Some nextUrl" by blast
    have a: "\<forall>p. url \<noteq> [] \<longrightarrow>
             pagesLoop (Suc p) fuel cfg w url n st = pagesLoop p fuel cfg w nextUrl n' st'"
      using pagesLoop_step[OF _ run] r by simp
    have b: "\<forall>(st'' :: 'v store) p. control st'' = control st' \<and> RESUME cfg \<and> nextUrl \<noteq> [] \<longrightarrow>
             loadAllCases p fuel cfg w st'' =
               pagesLoop p fuel cfg w nextUrl 0 (emit (ControlFindOne (JOB_ID cfg)) st'')"
    proof (intro allI impI)
      fix st'' :: "'v store" and p
      assume h: "control st'' = control st' \<and> RESUME cfg \<and> nextUrl \<noteq> []"
      with cp have "control st'' (JOB_ID cfg) = Some cp" by simp
      from loadAllCases_resume[OF _ this cp(2)] h
      show "loadAllCases p fuel cfg w st'' =
               pagesLoop p fuel cfg w nextUrl 0 (emit (ControlFindOne (JOB_ID cfg)) st'')" by simp
    qed
    have c: "\<forall>json2 s1 k m.
             fetchJsonWithRetry (http_clusters w) (random_jitter w) nextUrl ''fetch clusters page'' 1 st'
               = (Inr json2, s1) \<and> RESUME cfg \<and> nextUrl \<noteq> [] \<longrightarrow>
             control (snd (clustersLoop fuel cfg w (take k (page_items json2)) m s1)) = control st' \<and>
             fst (startUrl cfg (snd (clustersLoop fuel cfg w (take k (page_items json2)) m s1))) = nextUrl"
    proof (intro allI impI)
      fix json2 s1 k m
      assume h: "fetchJsonWithRetry (http_clusters w) (random_jitter w) nextUrl ''fetch clusters page'' 1 st'
               = (Inr json2, s1) \<and> RESUME cfg \<and> nextUrl \<noteq> []"
      let ?s = "snd (clustersLoop fuel cfg w (take k (page_items json2)) m s1)"
      from h control_mid_page have ctl: "control ?s = control st'" by blast
      with cp have "control ?s (JOB_ID cfg) = Some cp" by simp
      from startUrl_resume[OF _ this cp(2)] h ctl
      show "control ?s = control st' \<and> fst (startUrl cfg ?s) = nextUrl" by simp
    qed
    from a b c show ?thesis by (intro conjI)
  qed
  show ?thesis
    apply (rule conjI)
     apply (intro allI impI)
     apply (rule conjI)
      apply (erule page[THEN conjunct1, rule_format])
     apply (erule ret)
    apply (rule conjI)
     apply (rule page[THEN conjunct2])
    apply (rule conjI)
     apply (rule stop)
    apply (rule conjI)
     apply (rule within)
    apply (rule start)
    done
qed

lemma page_attempt_eq:
  "processCluster (Suc 0) example_config example_env example_cluster (emit (HttpRequest ''page'') empty_store) =
     (Returned (), page_done)"
proof -
  have ni: "\<not> already_indexed (emit (HttpRequest ''page'') empty_store) example_cluster"
    by (simp add: already_indexed_def)
  show ?thesis
    unfolding processCluster_run[OF ni ex_guard] ex_cl_id ex_case_id ex_dd page_done_def
    by (simp add: ex_run opinions_exists_def ex_keys numeral_2_eq_2 del: processOpinions.simps(2))
qed

lemma ex_http_clusters:
  "http_clusters example_env n ''page'' =
     HttpOk \<lparr> pg_results = Some [late_cluster, example_cluster], pg_next = Some ''page-2'' \<rparr>"
  "http_clusters example_env n ''page-2'' =
     HttpOk \<lparr> pg_results = Some [december_cluster], pg_next = None \<rparr>"
  by (simp_all add: example_env_def)

lemma page_run:
  "pageIteration 1 example_config example_env ''page'' 0 empty_store = (Returned (''page-2'', 1), after_page)"
  unfolding pageIteration_def after_page_def
  by (simp add: fetchJsonWithRetry.simps[of _ _ _ _ "Suc 0"] Let_def ex_http_clusters
        page_items_def or_empty_def ex_filter ex_filter_late page_attempt_eq)

lemma page_2_fetch:
  "fetchJsonWithRetry (http_clusters example_env) (random_jitter example_env) ''page-2''
      ''fetch clusters page'' 1 after_page =
     (Inr \<lparr> pg_results = Some [december_cluster], pg_next = None \<rparr>,
      emit (HttpRequest ''page-2'') after_page)"
  by (simp add: fetchJsonWithRetry.simps[of _ _ _ _ "Suc 0"] Let_def ex_http_clusters)

theorem checkpoint_written_after_page_witness:
  "pageIteration 1 example_config example_env ''page'' 0 empty_store = (Returned (''page-2'', 1), after_page) \<and>
   checkpoint_writes (new_events empty_store after_page) = [(''scotus_2000_2024'', ''page-2'')] \<and>
   attempts (new_events empty_store after_page) = [''cl:1''] \<and>
   RESUME example_config \<and>
   fst (startUrl example_config after_page) = ''page-2'' \<and>
   pagesLoop (Suc 1) 1 example_config example_env ''page'' 0 empty_store =
     pagesLoop 1 1 example_config example_env ''page-2'' 1 after_page \<and>
   loadAllCases 1 1 example_config example_env after_page =
     pagesLoop 1 1 example_config example_env ''page-2'' 0 (emit (ControlFindOne ''scotus_2000_2024'') after_page) \<and>
   control (snd (clustersLoop 1 example_config example_env [december_cluster] 0
                  (emit (HttpRequest ''page-2'') after_page))) = control after_page \<and>
   fst (startUrl example_config
         (snd (clustersLoop 1 example_config example_env [december_cluster] 0
                 (emit (HttpRequest ''page-2'') after_page)))) = ''page-2'' \<and>
   loadAllCases 1 1 example_config example_env
       (snd (clustersLoop 1 example_config example_env [december_cluster] 0
               (emit (HttpRequest ''page-2'') after_page))) =
     pagesLoop 1 1 example_config example_env ''page-2'' 0
       (emit (ControlFindOne ''scotus_2000_2024'')
          (snd (clustersLoop 1 example_config example_env [december_cluster] 0
                  (emit (HttpRequest ''page-2'') after_page))))"
proof -
  let ?crash = "snd (clustersLoop 1 example_config example_env [december_cluster] 0
                  (emit (HttpRequest ''page-2'') after_page))"
  note t = checkpoint_written_after_page[OF page_run]
  note ret = t[THEN conjunct1, rule_format, OF refl]
  note old = ret[THEN conjunct1]
  note q1 = ret[THEN conjunct2, THEN conjunct1]
  note q2 = ret[THEN conjunct2, THEN conjunct2, THEN conjunct1]
  note q3 = ret[THEN conjunct2, THEN conjunct2, THEN conjunct2]
  have ne: "''page-2'' \<noteq> ([] :: string)" "''page'' \<noteq> ([] :: string)" by simp_all
  have res: "RESUME example_config" by (simp add: example_config_def)
  have job: "JOB_ID example_config = ''scotus_2000_2024''" by (simp add: example_config_def)
  from old have cw: "checkpoint_writes (new_events empty_store after_page) = [(''scotus_2000_2024'', ''page-2'')]"
    unfolding job by blast
  have att: "attempts (new_events empty_store after_page) = [''cl:1'']"
    by (simp add: new_events_def after_page_def page_done_def ex_case_id probe_of_def)
  from old res ne(1) have su: "fst (startUrl example_config after_page) = ''page-2''" by blast
  have pl: "pagesLoop (Suc 1) 1 example_config example_env ''page'' 0 empty_store =
     pagesLoop 1 1 example_config example_env ''page-2'' 1 after_page"
    by (rule q1[rule_format, OF ne(2)])
  have la: "loadAllCases 1 1 example_config example_env after_page =
     pagesLoop 1 1 example_config example_env ''page-2'' 0 (emit (ControlFindOne ''scotus_2000_2024'') after_page)"
    using q2[rule_format, of after_page 1] res ne(1) unfolding job by blast
  have items: "take 1 (page_items \<lparr> pg_results = Some [december_cluster], pg_next = None \<rparr>) = [december_cluster]"
    by (simp add: page_items_def)
  have crash: "control ?crash = control after_page \<and> fst (startUrl example_config ?crash) = ''page-2''"
    using q3[rule_format, of "\<lparr> pg_results = Some [december_cluster], pg_next = None \<rparr>"
               "emit (HttpRequest ''page-2'') after_page" 1 0] page_2_fetch res ne(1)
    unfolding items by blast
  have la2: "loadAllCases 1 1 example_config example_env ?crash =
     pagesLoop 1 1 example_config example_env ''page-2'' 0 (emit (ControlFindOne ''scotus_2000_2024'') ?crash)"
    using q2[rule_format, of ?crash 1] crash res ne(1) unfolding job by blast
  from page_run cw att res su pl la crash[THEN conjunct1] crash[THEN conjunct2] la2
  show ?thesis by (intro conjI)
qed

end
